theory Spec2Isabelle
  imports Complex_Main "HOL-Library.Log_Nat" "HOL-Library.Word"
begin

section \<open>JavaScript numbers\<close>

text \<open>
  A JavaScript number is an IEEE 754 double. Numbers are modelled by the rationals they
  denote, and every division and multiplication of the source rounds its exact result to
  the nearest double, ties to the even significand: \<open>binary64\<close>. A double with
  exponent \<open>e\<close> is a multiple of \<open>2 powi (e - 52)\<close>; below \<open>2 powi (- 1022)\<close> the
  spacing stays that of the smallest normal exponent (subnormal numbers). Overflow to
  \<^verbatim>\<open>Infinity\<close> and \<^verbatim>\<open>NaN\<close> are not values of the model: where the source can
  meet them, the case is written out at the place.
\<close>

definition ilog2 :: "rat \<Rightarrow> int" where
  "ilog2 x =
     (let (p, q) = quotient_of x; d = bitlen p - bitlen q
      in if 2 powi d \<le> x then d else d - 1)"

definition round_half_even :: "rat \<Rightarrow> int" where
  "round_half_even m =
     (let f = \<lfloor>m\<rfloor>; r = m - of_int f
      in if r < 1 / 2 then f else if 1 / 2 < r then f + 1 else if even f then f else f + 1)"

definition binary64 :: "rat \<Rightarrow> rat" where
  "binary64 x =
     (if x = 0 then 0
      else
        (let a = \<bar>x\<bar>; e = max (ilog2 a) (- 1022); q = 2 powi (e - 52)
         in sgn x * of_int (round_half_even (a / q)) * q))"

definition is_double :: "rat \<Rightarrow> bool" where
  "is_double x \<longleftrightarrow> binary64 x = x"

definition js_div :: "rat \<Rightarrow> rat \<Rightarrow> rat" where
  "js_div a b = binary64 (a / b)"

definition js_mul :: "rat \<Rightarrow> rat \<Rightarrow> rat" where
  "js_mul a b = binary64 (a * b)"

text \<open>
  \<^verbatim>\<open>Math.round\<close> gives the integer nearest to its argument, halves upwards; it is
  exact on every double.
\<close>

definition js_round :: "rat \<Rightarrow> int" where
  "js_round x = \<lfloor>x + 1 / 2\<rfloor>"

section \<open>The documents, as the two PDF libraries see them\<close>

text \<open>
  The toolkit never parses a PDF itself: pdf-lib (\<^verbatim>\<open>PDFDocument.load\<close>,
  \<^verbatim>\<open>copyPages\<close>, \<^verbatim>\<open>embedJpg\<close>) and pdf.js (\<^verbatim>\<open>getDocument\<close>,
  \<^verbatim>\<open>getPage\<close>, \<^verbatim>\<open>render\<close>) do. An uploaded file is therefore modelled by
  what those calls answer on it: whether pdf-lib's parser accepts the bytes, whether the
  trailer carries an \<^verbatim>\<open>Encrypt\<close> entry, whether pdf.js opens it, and the pages.
  A page records its content, its size at scale 1 as pdf.js reports it (the width and
  height of \<^verbatim>\<open>page.getViewport({ scale: 1 })\<close>, two JavaScript numbers) and
  whether copying or rendering it succeeds (\<open>intact\<close>); a corrupted page is one that
  is not intact.
\<close>

datatype error =
    ParseError
  | EncryptedPDFError
  | PageError nat
  | EmbedError nat

record 'c page =
  content :: 'c
  native_width :: rat
  native_height :: rat
  intact :: bool

record 'c pdf_file =
  file_name :: string
  file_size :: nat
  parses :: bool
  encrypted :: bool
  pdfjs_opens :: bool
  file_pages :: "'c page list"

text \<open>
  \<^verbatim>\<open>PDFDocument.load(bytes, { ignoreEncryption })\<close> of pdf-lib: the option
  defaults to false, and then an encrypted document is rejected with
  \<^verbatim>\<open>EncryptedPDFError\<close>.
\<close>

definition PDFDocument_load :: "bool \<Rightarrow> 'c pdf_file \<Rightarrow> error + 'c page list" where
  "PDFDocument_load ignoreEncryption f =
     (if \<not> parses f then Inl ParseError
      else if encrypted f \<and> \<not> ignoreEncryption then Inl EncryptedPDFError
      else Inr (file_pages f))"

text \<open>
  \<^verbatim>\<open>doc.save()\<close> of pdf-lib, called without options: a document without pages
  gets one blank default page before it is serialised. A saved document is the list of
  its pages, each the page that was added or the blank one.
\<close>

datatype 'p out_page = SourcePage 'p | BlankPage

definition PDFDocument_save :: "'p list \<Rightarrow> 'p out_page list" where
  "PDFDocument_save doc = (case doc of [] \<Rightarrow> [BlankPage] | _ \<Rightarrow> map SourcePage doc)"

text \<open>The progress line shown to the user; the template strings carry their numbers.\<close>

datatype progress_msg =
    NoProgress
  | LoadingPDF
  | SplittingPage nat nat
  | Completed
  | StartingCompression
  | RenderingPage nat nat
  | Finalizing
  | CreatingNewDocument
  | Processing nat nat string
  | SavingMergedPDF
  | Done

section \<open>Split (SplitPdf.jsx)\<close>

text \<open>
  The component's state. An entry of \<open>splitPages\<close> holds the saved one-page document
  behind its object URL and the page number; byte sizes are not modelled. The fields carry the
  prefix \<open>s_\<close> because the three components use the same names.
\<close>

record 'c split_result =
  url :: "'c page out_page list"
  pageNum :: nat

record 'c split_state =
  s_file :: "'c pdf_file option"
  s_isSplitting :: bool
  s_progress :: progress_msg
  s_error :: string
  s_splitPages :: "'c split_result list option"

text \<open>
  \<^verbatim>\<open>doc.getPageIndices()\<close> and \<^verbatim>\<open>target.copyPages(src, indices)\<close> of pdf-lib.
  Copying throws at the first index whose page is missing or cannot be copied.
\<close>

definition getPageIndices :: "'c page list \<Rightarrow> nat list" where
  "getPageIndices pdf = [0 ..< length pdf]"

fun copyPages :: "'c page list \<Rightarrow> nat list \<Rightarrow> error + 'c page list" where
  "copyPages src [] = Inr []"
| "copyPages src (k # ks) =
     (if k < length src \<and> intact (src ! k)
      then (case copyPages src ks of Inl e \<Rightarrow> Inl e | Inr copied \<Rightarrow> Inr (src ! k # copied))
      else Inl (PageError k))"

text \<open>
  The loop of \<open>split\<close> over \<open>pageIndices\<close>, from position \<open>i\<close>: \<open>results\<close> is the
  local array, which a throw loses. The first argument is the document, the second the
  indices still to visit.
\<close>

fun split_pages ::
  "'c page list \<Rightarrow> nat list \<Rightarrow> nat \<Rightarrow> nat \<Rightarrow> 'c split_result list \<Rightarrow> 'c split_state
   \<Rightarrow> 'c split_state \<times> (error + 'c split_result list)" where
  "split_pages pdfDoc [] i n results s = (s, Inr results)"
| "split_pages pdfDoc (k # ks) i n results s =
     (let s' = s\<lparr>s_progress := SplittingPage (i + 1) n\<rparr>
      in case copyPages pdfDoc [k] of
           Inl e \<Rightarrow> (s', Inl e)
         | Inr [] \<Rightarrow> (s', Inl (PageError k))
         | Inr (copiedPage # _) \<Rightarrow>
             split_pages pdfDoc ks (i + 1) n
               (results @ [\<lparr>url = PDFDocument_save [copiedPage], pageNum = i + 1\<rparr>]) s')"

text \<open>
  The handler \<open>split\<close>, up to the end of its \<^verbatim>\<open>finally\<close> block (the timer that
  clears the progress line 1.5 s later is left out).
\<close>

definition split :: "'c split_state \<Rightarrow> 'c split_state" where
  "split s0 =
     (let s = s0\<lparr>s_error := ''''\<rparr>
      in case s_file s of
           None \<Rightarrow> s\<lparr>s_error := ''Please upload a PDF first.''\<rparr>
         | Some f \<Rightarrow>
             (let s1 = s\<lparr>s_isSplitting := True, s_progress := LoadingPDF, s_splitPages := None\<rparr>;
                  s3 = (case PDFDocument_load True f of
                          Inl e \<Rightarrow> s1\<lparr>s_error := ''Failed to split PDF. Try a different file.''\<rparr>
                        | Inr pdfDoc \<Rightarrow>
                            (let pageIndices = getPageIndices pdfDoc
                             in case split_pages pdfDoc pageIndices 0 (length pageIndices) [] s1 of
                                  (s2, Inl e) \<Rightarrow>
                                    s2\<lparr>s_error := ''Failed to split PDF. Try a different file.''\<rparr>
                                | (s2, Inr results) \<Rightarrow>
                                    s2\<lparr>s_splitPages := Some results, s_progress := Completed\<rparr>))
              in s3\<lparr>s_isSplitting := False\<rparr>))"

section \<open>Compress (App.jsx, component CompressPDF)\<close>

text \<open>
  A page of the rebuilt document: the JPEG of one canvas, drawn on a page of the image's
  own size (\<^verbatim>\<open>embeddedImage.scale(1)\<close> is the canvas size).
\<close>

record 'c image_page =
  img_width :: int
  img_height :: int
  img_source :: 'c
  img_quality :: rat

record page_progress =
  current :: nat
  total :: nat

text \<open>
  The component's state (prefix \<open>c_\<close>); \<open>resultSize\<close> is left out with the byte
  sizes. \<open>c_observed\<close> is not a field of the source: it lists, in order, every value
  handed to \<^verbatim>\<open>setPageProgress\<close>, which is what a progress observer sees.
\<close>

record 'c compress_state =
  c_file :: "'c pdf_file option"
  c_pages :: "nat option"
  c_isProcessing :: bool
  c_progress :: progress_msg
  c_error :: string
  c_resultUrl :: "'c image_page out_page list option"
  c_originalSize :: "nat option"
  c_pageProgress :: page_progress
  c_observed :: "page_progress list"

definition setPageProgress :: "page_progress \<Rightarrow> 'c compress_state \<Rightarrow> 'c compress_state" where
  "setPageProgress v s = s\<lparr>c_pageProgress := v, c_observed := c_observed s @ [v]\<rparr>"

definition reset :: "'c compress_state \<Rightarrow> 'c compress_state" where
  "reset s =
     setPageProgress \<lparr>current = 0, total = 0\<rparr>
       (s\<lparr>c_file := None, c_pages := None, c_resultUrl := None, c_isProcessing := False,
          c_progress := NoProgress, c_error := '''', c_originalSize := None\<rparr>)"

text \<open>
  \<^verbatim>\<open>Math.min(1, maxWidth / viewport.width)\<close>. JavaScript's division by zero gives
  \<^verbatim>\<open>Infinity\<close> for the positive \<open>maxWidth\<close> that \<open>compress\<close> passes, and the
  minimum is then 1; HOL's \<open>x / 0 = 0\<close> would say 0, so the case is written out. A
  quotient beyond the largest double is \<^verbatim>\<open>Infinity\<close> in the source and a large
  number here; the minimum is 1 in both.
\<close>

definition render_scale :: "rat \<Rightarrow> rat \<Rightarrow> rat" where
  "render_scale maxWidth width = (if width = 0 then 1 else min 1 (js_div maxWidth width))"

text \<open>
  One iteration of the loop of \<open>compressViaCanvas\<close> after the progress updates:
  \<^verbatim>\<open>getPage\<close>, the two viewports, the canvas, \<^verbatim>\<open>render\<close>, the JPEG and
  \<^verbatim>\<open>embedJpg\<close>. \<^verbatim>\<open>page.getViewport({ scale })\<close> multiplies the page's width and
  height by the scale, one rounded multiplication each (pages with a user unit other
  than 1, and the limits a browser puts on the size of a canvas, are outside the model).
  A canvas without pixels serialises to \<^verbatim>\<open>data:,\<close>, whose payload is empty, and
  \<^verbatim>\<open>embedJpg\<close> throws on it.
\<close>

definition render_page :: "rat \<Rightarrow> rat \<Rightarrow> nat \<Rightarrow> 'c page \<Rightarrow> error + 'c image_page" where
  "render_page quality maxWidth p pg =
     (if \<not> intact pg then Inl (PageError p)
      else
        (let scale = render_scale maxWidth (native_width pg);
             canvas_width = js_round (js_mul (native_width pg) scale);
             canvas_height = js_round (js_mul (native_height pg) scale)
         in if canvas_width \<le> 0 \<or> canvas_height \<le> 0 then Inl (EmbedError p)
            else Inr \<lparr>img_width = canvas_width, img_height = canvas_height,
                      img_source = content pg, img_quality = quality\<rparr>))"

text \<open>
  The loop of \<open>compressViaCanvas\<close> from page number \<open>p\<close> (pages are numbered from 1).
  Every iteration suspends at its \<^verbatim>\<open>await\<close>s, where the browser may run another
  handler of the component; the Reset button stays enabled while a run is in progress.
  \<open>resetAt p\<close> says whether the user presses Reset while page \<open>p\<close> is being rendered.
  The loop reads no state of the component: it works on its argument \<open>fileObj\<close>.
\<close>

fun render_pages ::
  "(nat \<Rightarrow> bool) \<Rightarrow> rat \<Rightarrow> rat \<Rightarrow> 'c page list \<Rightarrow> nat \<Rightarrow> nat \<Rightarrow> 'c image_page list
   \<Rightarrow> 'c compress_state \<Rightarrow> 'c compress_state \<times> (error + 'c image_page list)" where
  "render_pages resetAt quality maxWidth [] p n outPdf s = (s, Inr outPdf)"
| "render_pages resetAt quality maxWidth (pg # pgs) p n outPdf s =
     (let s1 = setPageProgress \<lparr>current = p, total = n\<rparr> (s\<lparr>c_progress := RenderingPage p n\<rparr>);
          s2 = (if resetAt p then reset s1 else s1)
      in case render_page quality maxWidth p pg of
           Inl e \<Rightarrow> (s2, Inl e)
         | Inr img \<Rightarrow> render_pages resetAt quality maxWidth pgs (p + 1) n (outPdf @ [img]) s2)"

definition compressViaCanvas ::
  "(nat \<Rightarrow> bool) \<Rightarrow> 'c pdf_file \<Rightarrow> rat \<Rightarrow> rat \<Rightarrow> 'c compress_state
   \<Rightarrow> 'c compress_state \<times> (error + 'c image_page out_page list)" where
  "compressViaCanvas resetAt fileObj quality maxWidth s =
     (if \<not> pdfjs_opens fileObj then (s, Inl ParseError)
      else
        (let numPages = length (file_pages fileObj);
             s1 = setPageProgress \<lparr>current = 0, total = numPages\<rparr> s
         in case render_pages resetAt quality maxWidth (file_pages fileObj) 1 numPages [] s1 of
              (s2, Inl e) \<Rightarrow> (s2, Inl e)
            | (s2, Inr outPdf) \<Rightarrow>
                (s2\<lparr>c_progress := Finalizing\<rparr>, Inr (PDFDocument_save outPdf))))"

text \<open>
  The handler \<open>compress\<close>, up to the end of its \<^verbatim>\<open>finally\<close> block (the timer that
  clears the progress 1.2 s later is left out). The literal \<^verbatim>\<open>0.6\<close> is the double
  nearest to 6/10.
\<close>

definition compress :: "(nat \<Rightarrow> bool) \<Rightarrow> 'c compress_state \<Rightarrow> 'c compress_state" where
  "compress resetAt s0 =
     (let s = s0\<lparr>c_error := ''''\<rparr>
      in case c_file s of
           None \<Rightarrow> s\<lparr>c_error := ''Please upload a PDF first.''\<rparr>
         | Some fileObj \<Rightarrow>
             (let s1 = setPageProgress \<lparr>current = 0, total = 0\<rparr>
                         (s\<lparr>c_isProcessing := True, c_progress := StartingCompression,
                            c_resultUrl := None\<rparr>);
                  s3 = (case compressViaCanvas resetAt fileObj (binary64 (6 / 10)) 1400 s1 of
                          (s2, Inr outBlob) \<Rightarrow>
                            s2\<lparr>c_resultUrl := Some outBlob, c_progress := Completed\<rparr>
                        | (s2, Inl e) \<Rightarrow>
                            s2\<lparr>c_error := ''Compression failed. Try a different PDF or use server-side tools for heavier compression.''\<rparr>)
              in s3\<lparr>c_isProcessing := False\<rparr>))"

text \<open>A run that no other handler interrupts.\<close>

definition undisturbed :: "nat \<Rightarrow> bool" where
  "undisturbed p = False"

section \<open>Merge (component MergePDF)\<close>

definition MAX_SIZE_BYTES :: nat where
  "MAX_SIZE_BYTES = 200 * 1024 * 1024"

record 'c merge_item =
  item_id :: string
  item_file :: "'c pdf_file"
  item_name :: string
  item_size :: nat
  item_pages :: "nat option"

record 'c merge_state =
  m_items :: "'c merge_item list"
  m_isProcessing :: bool
  m_mergedUrl :: "'c page out_page list option"
  m_error :: string
  m_progress :: progress_msg

text \<open>
  The loop of \<open>mergePDFs\<close> over \<open>items\<close>, from position \<open>i\<close>; \<open>mergedDoc\<close> is the
  page list of the document under construction. The load passes no options.
\<close>

fun merge_items ::
  "'c merge_item list \<Rightarrow> nat \<Rightarrow> nat \<Rightarrow> 'c page list \<Rightarrow> 'c merge_state
   \<Rightarrow> 'c merge_state \<times> (error + 'c page list)" where
  "merge_items [] i n mergedDoc s = (s, Inr mergedDoc)"
| "merge_items (it # its) i n mergedDoc s =
     (let s' = s\<lparr>m_progress := Processing (i + 1) n (item_name it)\<rparr>
      in case PDFDocument_load False (item_file it) of
           Inl e \<Rightarrow> (s', Inl e)
         | Inr pdf \<Rightarrow>
             (case copyPages pdf (getPageIndices pdf) of
                Inl e \<Rightarrow> (s', Inl e)
              | Inr copied \<Rightarrow> merge_items its (i + 1) n (mergedDoc @ copied) s'))"

definition mergePDFs :: "'c merge_state \<Rightarrow> 'c merge_state" where
  "mergePDFs s0 =
     (let s = s0\<lparr>m_error := '''', m_mergedUrl := None\<rparr>
      in if length (m_items s) < 2
         then s\<lparr>m_error := ''Select at least two PDF files to merge.''\<rparr>
         else if sum_list (map item_size (m_items s)) > MAX_SIZE_BYTES
         then s\<lparr>m_error := ''Total file size too large. Try fewer or smaller PDFs.''\<rparr>
         else
           (let s1 = s\<lparr>m_isProcessing := True, m_progress := CreatingNewDocument\<rparr>;
                s3 = (case merge_items (m_items s) 0 (length (m_items s)) [] s1 of
                        (s2, Inl e) \<Rightarrow>
                          s2\<lparr>m_error := ''Failed to merge PDFs. Try re-uploading the files.''\<rparr>
                      | (s2, Inr mergedDoc) \<Rightarrow>
                          s2\<lparr>m_progress := SavingMergedPDF,
                             m_mergedUrl := Some (PDFDocument_save mergedDoc),
                             m_progress := Done\<rparr>)
            in s3\<lparr>m_isProcessing := False\<rparr>))"

section \<open>Image reducer (handleUpload)\<close>

text \<open>
  The selected image, as the browser sees it: whether \<^verbatim>\<open>createImageBitmap\<close>
  decodes it (and the message of the rejection when it does not), its pixel size, and
  whether \<^verbatim>\<open>canvas.toBlob\<close> hands a blob to its callback. The sides of an
  \<^verbatim>\<open>ImageBitmap\<close> are of the type \<^verbatim>\<open>unsigned long\<close>, and a bitmap has at least
  one pixel in each direction. \<open>pixels\<close> reads a side as a JavaScript number.
\<close>

record image_file =
  image_decodes :: bool
  decode_message :: string
  image_width :: "32 word"
  image_height :: "32 word"
  blob_created :: bool

record bitmap =
  bmp_width :: "32 word"
  bmp_height :: "32 word"

definition pixels :: "32 word \<Rightarrow> rat" where
  "pixels n = of_nat (unat n)"

definition createImageBitmap :: "image_file \<Rightarrow> string + bitmap" where
  "createImageBitmap f =
     (if image_decodes f \<and> 0 < image_width f \<and> 0 < image_height f
      then Inr \<lparr>bmp_width = image_width f, bmp_height = image_height f\<rparr>
      else Inl (decode_message f))"

text \<open>
  \<^verbatim>\<open>parseInt(s, 10)\<close>: leading white space, an optional sign, then the longest run
  of decimal digits; \<open>None\<close> is \<^verbatim>\<open>NaN\<close>. \<open>parseInt\<close> gives the integer that
  the digits denote; the number that the source gets is the double nearest to it.
\<close>

definition js_whitespace :: "char \<Rightarrow> bool" where
  "js_whitespace c \<longleftrightarrow> c \<in> {CHR '' '', CHR 0x09, CHR 0x0A, CHR 0x0B, CHR 0x0C, CHR 0x0D}"

definition is_digit :: "char \<Rightarrow> bool" where
  "is_digit c \<longleftrightarrow> c \<in> set ''0123456789''"

definition digits_value :: "string \<Rightarrow> nat" where
  "digits_value ds = foldl (\<lambda>a c. 10 * a + (of_char c - 48)) 0 ds"

definition parseInt :: "string \<Rightarrow> int option" where
  "parseInt str =
     (let t = dropWhile js_whitespace str;
          negative = (case t of [] \<Rightarrow> False | c # _ \<Rightarrow> c = CHR ''-'');
          u = (case t of [] \<Rightarrow> [] | c # r \<Rightarrow> if c = CHR ''-'' \<or> c = CHR ''+'' then r else t);
          ds = takeWhile is_digit u
      in if ds = [] then None
         else Some (if negative then - int (digits_value ds) else int (digits_value ds)))"

text \<open>
  A preset, the answer of \<open>getCurrentConfig\<close>: each field is \<^verbatim>\<open>Number(cfg.width)\<close>,
  with \<open>None\<close> for \<^verbatim>\<open>NaN\<close>. The state of the component carries the prefix \<open>i_\<close>; a
  resized image is described by the canvas it was drawn on and the encoder's arguments.
\<close>

record size_config =
  cfg_width :: "rat option"
  cfg_height :: "rat option"

record resized_image =
  out_width :: int
  out_height :: int
  out_mime :: string
  out_quality :: rat

record image_state =
  i_selectedFile :: "image_file option"
  i_config :: "size_config option"
  i_customWidth :: string
  i_customHeight :: string
  i_format :: string
  i_quality :: rat
  i_loading :: bool
  i_error :: string
  i_resizedImage :: "resized_image option"
  i_success :: bool

text \<open>
  Lines 638 to 649: the requested size, \<open>None\<close> for \<^verbatim>\<open>NaN\<close>. A run of digits
  beyond the largest double is \<^verbatim>\<open>Infinity\<close> in the source and a large number here;
  the clamp and the floor of one pixel below give the same sizes for both.
\<close>

definition requested_size :: "image_state \<Rightarrow> rat option \<times> rat option" where
  "requested_size s =
     (case i_config s of
        Some cfg \<Rightarrow>
          (Some (case cfg_width cfg of None \<Rightarrow> 0 | Some v \<Rightarrow> v),
           Some (case cfg_height cfg of None \<Rightarrow> 0 | Some v \<Rightarrow> v))
      | None \<Rightarrow>
          (map_option (\<lambda>n. binary64 (of_int n))
             (parseInt (if i_customWidth s = [] then ''0'' else i_customWidth s)),
           map_option (\<lambda>n. binary64 (of_int n))
             (parseInt (if i_customHeight s = [] then ''0'' else i_customHeight s))))"

text \<open>Lines 651 to 657: half the bitmap when a side is zero or \<^verbatim>\<open>NaN\<close>, then the clamp.\<close>

definition target_size :: "image_state \<Rightarrow> bitmap \<Rightarrow> rat \<times> rat" where
  "target_size s bmp =
     (let half = (of_int (js_round (js_mul (pixels (bmp_width bmp)) (1 / 2))),
                  of_int (js_round (js_mul (pixels (bmp_height bmp)) (1 / 2))));
          (targetW, targetH) =
            (case requested_size s of
               (Some w, Some h) \<Rightarrow> if w = 0 \<or> h = 0 then half else (w, h)
             | _ \<Rightarrow> half)
      in (min targetW (pixels (bmp_width bmp)), min targetH (pixels (bmp_height bmp))))"

text \<open>Line 659.\<close>

definition reduce_scale :: "image_state \<Rightarrow> bitmap \<Rightarrow> rat" where
  "reduce_scale s bmp =
     (let (targetW, targetH) = target_size s bmp
      in min (js_div targetW (pixels (bmp_width bmp))) (js_div targetH (pixels (bmp_height bmp))))"

text \<open>Lines 660 and 661.\<close>

definition output_size :: "image_state \<Rightarrow> bitmap \<Rightarrow> int \<times> int" where
  "output_size s bmp =
     (let scale = reduce_scale s bmp
      in (max 1 (js_round (js_mul (pixels (bmp_width bmp)) scale)),
          max 1 (js_round (js_mul (pixels (bmp_height bmp)) scale))))"

definition handleUpload :: "image_state \<Rightarrow> image_state" where
  "handleUpload s0 =
     (case i_selectedFile s0 of
        None \<Rightarrow> s0\<lparr>i_error := ''Please select an image first''\<rparr>
      | Some selectedFile \<Rightarrow>
          (let s1 = s0\<lparr>i_loading := True, i_error := ''''\<rparr>;
               failed = (\<lambda>msg. s1\<lparr>i_error := (if msg = [] then ''Failed to process image'' else msg)\<rparr>);
               s2 = (case createImageBitmap selectedFile of
                       Inl msg \<Rightarrow> failed msg
                     | Inr bmp \<Rightarrow>
                         (let (outW, outH) = output_size s1 bmp;
                              mime = (if i_format s1 = ''png'' then ''image/png''
                                      else if i_format s1 = ''webp'' then ''image/webp''
                                      else ''image/jpeg'');
                              q = (if mime = ''image/png'' then 1
                                   else max (binary64 (1 / 100)) (js_div (i_quality s1) 100))
                          in if \<not> blob_created selectedFile
                             then failed ''Failed to create image blob''
                             else s1\<lparr>i_resizedImage :=
                                        Some \<lparr>out_width = outW, out_height = outH,
                                              out_mime = mime, out_quality = q\<rparr>,
                                      i_success := True\<rparr>))
           in s2\<lparr>i_loading := False\<rparr>))"

section \<open>Notions used to state the properties\<close>

text \<open>
  A page renders when pdf.js can draw it and its canvas has pixels; \<open>page_image\<close> is
  the page that the rebuilt document then holds for it.
\<close>

definition has_pixels :: "rat \<Rightarrow> 'c page \<Rightarrow> bool" where
  "has_pixels maxWidth pg \<longleftrightarrow>
     0 < js_round (js_mul (native_width pg) (render_scale maxWidth (native_width pg))) \<and>
     0 < js_round (js_mul (native_height pg) (render_scale maxWidth (native_width pg)))"

definition renders :: "rat \<Rightarrow> 'c page \<Rightarrow> bool" where
  "renders maxWidth pg \<longleftrightarrow> intact pg \<and> has_pixels maxWidth pg"

definition page_image :: "rat \<Rightarrow> rat \<Rightarrow> 'c page \<Rightarrow> 'c image_page" where
  "page_image quality maxWidth pg =
     \<lparr>img_width = js_round (js_mul (native_width pg) (render_scale maxWidth (native_width pg))),
      img_height = js_round (js_mul (native_height pg) (render_scale maxWidth (native_width pg))),
      img_source = content pg, img_quality = quality\<rparr>"

text \<open>What the progress observer is told between two states of a run.\<close>

definition reported :: "'c compress_state \<Rightarrow> 'c compress_state \<Rightarrow> page_progress list" where
  "reported s s' = drop (length (c_observed s)) (c_observed s')"

subsection \<open>Concrete inputs\<close>

definition letter_page :: "nat \<Rightarrow> bool \<Rightarrow> nat page" where
  "letter_page c ok = \<lparr>content = c, native_width = 612, native_height = 792, intact = ok\<rparr>"

definition wide_page :: "nat \<Rightarrow> nat page" where
  "wide_page c = \<lparr>content = c, native_width = 2000, native_height = 1000, intact = True\<rparr>"

definition pdf_of :: "nat page list \<Rightarrow> nat pdf_file" where
  "pdf_of pgs = \<lparr>file_name = ''input.pdf'', file_size = 4096, parses = True, encrypted = False,
                 pdfjs_opens = True, file_pages = pgs\<rparr>"

definition five_pages_third_corrupt :: "nat pdf_file" where
  "five_pages_third_corrupt =
     pdf_of [letter_page 1 True, letter_page 2 True, letter_page 3 False,
             letter_page 4 True, letter_page 5 True]"

definition three_pages :: "nat pdf_file" where
  "three_pages = pdf_of [wide_page 1, letter_page 2 True, letter_page 3 True]"

definition two_pages :: "nat pdf_file" where
  "two_pages = pdf_of [letter_page 7 True, letter_page 8 True]"

definition encrypted_pdf :: "nat pdf_file" where
  "encrypted_pdf = (pdf_of [letter_page 9 True])\<lparr>encrypted := True\<rparr>"

definition empty_pdf :: "nat pdf_file" where
  "empty_pdf = pdf_of []"

definition unreadable_pdf :: "nat pdf_file" where
  "unreadable_pdf = (pdf_of [])\<lparr>parses := False, pdfjs_opens := False\<rparr>"

definition split_idle :: "nat pdf_file \<Rightarrow> nat split_state" where
  "split_idle f = \<lparr>s_file = Some f, s_isSplitting = False, s_progress = NoProgress,
                   s_error = '''', s_splitPages = None\<rparr>"

definition compress_idle :: "nat pdf_file \<Rightarrow> nat compress_state" where
  "compress_idle f = \<lparr>c_file = Some f, c_pages = Some (length (file_pages f)),
                      c_isProcessing = False, c_progress = NoProgress, c_error = '''',
                      c_resultUrl = None, c_originalSize = Some (file_size f),
                      c_pageProgress = \<lparr>current = 0, total = 0\<rparr>, c_observed = []\<rparr>"

definition item_of :: "nat pdf_file \<Rightarrow> nat merge_item" where
  "item_of f = \<lparr>item_id = ''id'', item_file = f, item_name = file_name f,
                item_size = file_size f, item_pages = Some (length (file_pages f))\<rparr>"

definition merge_idle :: "nat merge_item list \<Rightarrow> nat merge_state" where
  "merge_idle its = \<lparr>m_items = its, m_isProcessing = False, m_mergedUrl = None,
                     m_error = '''', m_progress = NoProgress\<rparr>"

definition photo :: image_file where
  "photo = \<lparr>image_decodes = True, decode_message = '''', image_width = 1200,
            image_height = 900, blob_created = True\<rparr>"

definition reducer_idle :: image_state where
  "reducer_idle = \<lparr>i_selectedFile = Some photo, i_config = None, i_customWidth = ''300'',
                   i_customHeight = ''400'', i_format = ''jpeg'', i_quality = 80,
                   i_loading = False, i_error = '''', i_resizedImage = None,
                   i_success = False\<rparr>"

definition reset_during_page_two :: "nat \<Rightarrow> bool" where
  "reset_during_page_two p \<longleftrightarrow> p = 2"

definition reducer_negative_width :: image_state where
  "reducer_negative_width = reducer_idle\<lparr>i_customWidth := ''-5''\<rparr>"

section \<open>Properties\<close>

subsection \<open>Rounding to a double\<close>

lemma round_half_even_le:
  assumes "m \<le> of_int k"
  shows "round_half_even m \<le> k"
proof -
  have f: "\<lfloor>m\<rfloor> \<le> k" using assms by (simp add: floor_le_iff)
  show ?thesis
  proof (cases "\<lfloor>m\<rfloor> = k")
    case True
    have "of_int \<lfloor>m\<rfloor> \<le> m" by simp
    with True assms have "m - of_int \<lfloor>m\<rfloor> = 0" by simp
    then show ?thesis using True by (simp add: round_half_even_def Let_def)
  next
    case False
    with f have "\<lfloor>m\<rfloor> + 1 \<le> k" by simp
    then show ?thesis by (simp add: round_half_even_def Let_def)
  qed
qed

lemma round_half_even_ge:
  assumes "of_int k \<le> m"
  shows "k \<le> round_half_even m"
proof -
  have "k \<le> \<lfloor>m\<rfloor>" using assms by (simp add: le_floor_iff)
  then show ?thesis by (simp add: round_half_even_def Let_def)
qed

lemma ilog2_lower:
  assumes "0 < x"
  shows "2 powi (ilog2 x) \<le> x"
proof -
  obtain p q where pq: "quotient_of x = (p, q)" by (cases "quotient_of x")
  then have q: "0 < q" and x: "x = of_int p / of_int q"
    by (simp_all add: quotient_of_denom_pos quotient_of_div)
  with assms have p: "0 < p" by (simp add: zero_less_divide_iff)
  let ?d = "bitlen p - bitlen q"
  show ?thesis
  proof (cases "2 powi ?d \<le> x")
    case True
    with pq show ?thesis by (simp add: ilog2_def)
  next
    case False
    have bp: "1 \<le> bitlen p" and bq: "1 \<le> bitlen q"
      using p q by (simp_all add: bitlen_alt_def)
    have "(2::int) ^ nat (bitlen p - 1) \<le> p" using bitlen_bounds [OF p] by simp
    then have "(of_int ((2::int) ^ nat (bitlen p - 1)) :: rat) \<le> of_int p"
      by (simp only: of_int_le_iff)
    then have lo: "(2::rat) powi (bitlen p - 1) \<le> of_int p"
      using bp by (simp add: power_int_nonneg_exp)
    have "q < 2 ^ nat (bitlen q)" using bitlen_bounds [OF q] by simp
    then have "(of_int q :: rat) < of_int (2 ^ nat (bitlen q))"
      by (simp only: of_int_less_iff)
    then have hi: "(of_int q :: rat) \<le> 2 powi (bitlen q)"
      using bq by (simp add: power_int_nonneg_exp)
    have "(2::rat) powi (?d - 1) = 2 powi (bitlen p - 1) / 2 powi (bitlen q)"
      by (simp add: power_int_diff)
    also have "\<dots> \<le> of_int p / 2 powi (bitlen q)"
      using lo by (simp add: divide_right_mono)
    also have "\<dots> \<le> of_int p / of_int q"
      using hi p q by (intro divide_left_mono) simp_all
    finally have "(2::rat) powi (?d - 1) \<le> x" using x by simp
    with False pq show ?thesis by (simp add: ilog2_def)
  qed
qed

text \<open>With the upper bound, \<open>ilog2 x\<close> is the exponent of the double nearest to \<open>x\<close>.\<close>

lemma ilog2_upper:
  assumes "0 < x"
  shows "x < 2 powi (ilog2 x + 1)"
proof -
  obtain p q where pq: "quotient_of x = (p, q)" by (cases "quotient_of x")
  then have q: "0 < q" and x: "x = of_int p / of_int q"
    by (simp_all add: quotient_of_denom_pos quotient_of_div)
  with assms have p: "0 < p" by (simp add: zero_less_divide_iff)
  let ?d = "bitlen p - bitlen q"
  show ?thesis
  proof (cases "2 powi ?d \<le> x")
    case False
    with pq show ?thesis by (simp add: ilog2_def)
  next
    case True
    have bp: "1 \<le> bitlen p" and bq: "1 \<le> bitlen q"
      using p q by (simp_all add: bitlen_alt_def)
    have "p < 2 ^ nat (bitlen p)" using bitlen_bounds [OF p] by simp
    then have "(of_int p :: rat) < of_int (2 ^ nat (bitlen p))"
      by (simp only: of_int_less_iff)
    then have hi: "(of_int p :: rat) < 2 powi (bitlen p)"
      using bp by (simp add: power_int_nonneg_exp)
    have "(2::int) ^ nat (bitlen q - 1) \<le> q" using bitlen_bounds [OF q] by simp
    then have "(of_int ((2::int) ^ nat (bitlen q - 1)) :: rat) \<le> of_int q"
      by (simp only: of_int_le_iff)
    then have lo: "(2::rat) powi (bitlen q - 1) \<le> of_int q"
      using bq by (simp add: power_int_nonneg_exp)
    have "of_int p / of_int q \<le> of_int p / (2::rat) powi (bitlen q - 1)"
      using lo p q by (intro divide_left_mono) simp_all
    also have "\<dots> < 2 powi (bitlen p) / 2 powi (bitlen q - 1)"
      using hi by (simp add: divide_strict_right_mono)
    also have "\<dots> = 2 powi (?d + 1)"
      by (simp add: power_int_diff [symmetric] algebra_simps)
    finally have "x < 2 powi (?d + 1)" using x by simp
    with True pq show ?thesis by (simp add: ilog2_def)
  qed
qed

lemma binary64_nonneg:
  assumes "0 \<le> x"
  shows "0 \<le> binary64 x"
proof (cases "x = 0")
  case True
  then show ?thesis by (simp add: binary64_def)
next
  case False
  with assms have x: "0 < x" by simp
  let ?q = "(2::rat) powi (max (ilog2 x) (- 1022) - 52)"
  have q: "0 < ?q" by simp
  have "of_int 0 \<le> x / ?q" using x q by simp
  then have "0 \<le> round_half_even (x / ?q)" by (rule round_half_even_ge)
  then show ?thesis using x q by (simp add: binary64_def Let_def)
qed

lemma binary64_nonpos:
  assumes "x \<le> 0"
  shows "binary64 x \<le> 0"
proof (cases "x = 0")
  case True
  then show ?thesis by (simp add: binary64_def)
next
  case False
  with assms have x: "x < 0" by simp
  let ?q = "(2::rat) powi (max (ilog2 \<bar>x\<bar>) (- 1022) - 52)"
  have q: "0 < ?q" by simp
  have "of_int 0 \<le> \<bar>x\<bar> / ?q" using q by simp
  then have "0 \<le> round_half_even (\<bar>x\<bar> / ?q)" by (rule round_half_even_ge)
  then have "0 \<le> of_int (round_half_even (\<bar>x\<bar> / ?q)) * ?q" by simp
  then show ?thesis using x by (simp add: binary64_def Let_def mult.assoc)
qed

lemma binary64_le_int:
  assumes "x \<le> of_int n" and "0 \<le> n" and "n < 2 ^ 53"
  shows "binary64 x \<le> of_int n"
proof (cases "x \<le> 0")
  case True
  then have "binary64 x \<le> 0" by (rule binary64_nonpos)
  with assms(2) show ?thesis by simp
next
  case False
  then have x: "0 < x" by simp
  let ?e = "max (ilog2 x) (- 1022)"
  let ?q = "(2::rat) powi (?e - 52)"
  have q: "0 < ?q" by simp
  have "(2::rat) powi (ilog2 x) \<le> x" using x by (rule ilog2_lower)
  also have "x \<le> of_int n" by (rule assms(1))
  also have "(of_int n :: rat) < of_int (2 ^ 53)" using assms(3) by (simp only: of_int_less_iff)
  finally have "(2::rat) powi (ilog2 x) < 2 powi 53" by simp
  then have "ilog2 x < 53" by (rule power_int_le_imp_less_exp [rotated]) simp_all
  then have e: "?e \<le> 52" by simp
  define K where "K = (2::int) ^ nat (52 - ?e)"
  have "(of_int K :: rat) = 2 powi (52 - ?e)"
    using e by (simp add: K_def power_int_nonneg_exp)
  also have "\<dots> = 1 / ?q"
    by (simp add: power_int_diff)
  finally have K: "(of_int K :: rat) = 1 / ?q" .
  have "x / ?q \<le> of_int n / ?q" using assms(1) q by (simp add: divide_right_mono)
  also have "\<dots> = of_int (n * K)" using K by simp
  finally have "round_half_even (x / ?q) \<le> n * K" by (rule round_half_even_le)
  then have "(of_int (round_half_even (x / ?q)) :: rat) \<le> of_int (n * K)"
    by (simp only: of_int_le_iff)
  then have "of_int (round_half_even (x / ?q)) * ?q \<le> of_int (n * K) * ?q"
    using q by (simp add: mult_right_mono)
  also have "\<dots> = of_int n" using K q by simp
  finally show ?thesis using x by (simp add: binary64_def Let_def)
qed

lemma binary64_ge_1:
  assumes "1 \<le> x"
  shows "1 \<le> binary64 x"
proof -
  from assms have x: "0 < x" by simp
  let ?e = "max (ilog2 x) (- 1022)"
  let ?q = "(2::rat) powi (?e - 52)"
  have q: "0 < ?q" by simp
  have "1 \<le> of_int (round_half_even (x / ?q)) * ?q"
  proof (cases "?e \<le> 52")
    case True
    define K where "K = (2::int) ^ nat (52 - ?e)"
    have "(of_int K :: rat) = 2 powi (52 - ?e)"
      using True by (simp add: K_def power_int_nonneg_exp)
    also have "\<dots> = 1 / ?q"
      by (simp add: power_int_diff)
    finally have K: "(of_int K :: rat) = 1 / ?q" .
    have "of_int K \<le> x / ?q" using assms q K by (simp add: divide_right_mono)
    then have "K \<le> round_half_even (x / ?q)" by (rule round_half_even_ge)
    then have "(of_int K :: rat) \<le> of_int (round_half_even (x / ?q))"
      by (simp only: of_int_le_iff)
    then have "of_int K * ?q \<le> of_int (round_half_even (x / ?q)) * ?q"
      using q by (simp add: mult_right_mono)
    moreover have "of_int K * ?q = 1" using K q by simp
    ultimately show ?thesis by simp
  next
    case False
    then have e: "?e = ilog2 x" and big: "52 < ilog2 x" by simp_all
    have lo: "(2::rat) powi (ilog2 x) \<le> x" using x by (rule ilog2_lower)
    have "(2::rat) powi (ilog2 x) / ?q = 2 powi 52"
      unfolding e by (simp add: power_int_diff)
    then have "of_int (2 ^ 52) \<le> x / ?q"
      using lo q divide_right_mono [of "2 powi (ilog2 x)" x ?q] by simp
    then have "2 ^ 52 \<le> round_half_even (x / ?q)" by (rule round_half_even_ge)
    moreover have "(1::int) \<le> 2 ^ 52" by simp
    ultimately have "1 \<le> round_half_even (x / ?q)" by linarith
    then have "(1::rat) \<le> of_int (round_half_even (x / ?q))"
      by (simp only: of_int_1_le_iff)
    moreover have "1 \<le> ?q"
      unfolding e using big by (intro one_le_power_int) simp_all
    ultimately show ?thesis
      using mult_mono [of 1 "of_int (round_half_even (x / ?q))" 1 ?q] by simp
  qed
  then show ?thesis using x by (simp add: binary64_def Let_def)
qed

text \<open>
  Three products whose exact value ends in one half and whose double does not: a page
  of 1632 by 2346 and one of 2000 by 45 at \<open>maxWidth = 1400\<close>, and an image of 440 by 583
  reduced to a width of 300.
\<close>

lemma double_rounding_examples:
  "js_round (js_mul 2346 (js_div 1400 1632)) = 2012"
  "js_round (js_mul 45 (js_div 1400 2000)) = 31"
  "js_round (js_mul 583 (js_div 300 440)) = 397"
  by code_simp+

lemma js_mul_one: "is_double x \<Longrightarrow> js_mul x 1 = x"
  by (simp add: js_mul_def is_double_def)

lemma js_div_ge_one:
  assumes "0 < b" and "b \<le> a"
  shows "1 \<le> js_div a b"
proof -
  from assms have "1 \<le> a / b" by (simp add: le_divide_eq)
  then show ?thesis unfolding js_div_def by (rule binary64_ge_1)
qed

lemma PDFDocument_save_nonempty: "doc \<noteq> [] \<Longrightarrow> PDFDocument_save doc = map SourcePage doc"
  by (cases doc) (simp_all add: PDFDocument_save_def)

lemma PDFDocument_save_empty: "PDFDocument_save [] = [BlankPage]"
  by (simp add: PDFDocument_save_def)

lemma length_PDFDocument_save: "length (PDFDocument_save doc) = max 1 (length doc)"
  by (cases doc) (simp_all add: PDFDocument_save_def)

subsection \<open>Copying pages\<close>

lemma copyPages_ok:
  "\<forall>k\<in>set ks. k < length src \<and> intact (src ! k) \<Longrightarrow> copyPages src ks = Inr (map ((!) src) ks)"
  by (induction ks) simp_all

lemma copyPages_fails:
  "\<exists>k\<in>set ks. \<not> (k < length src \<and> intact (src ! k)) \<Longrightarrow> \<exists>e. copyPages src ks = Inl e"
proof (induction ks)
  case Nil
  then show ?case by simp
next
  case (Cons k ks)
  show ?case
  proof (cases "k < length src \<and> intact (src ! k)")
    case True
    with Cons.prems have "\<exists>k\<in>set ks. \<not> (k < length src \<and> intact (src ! k))" by auto
    from Cons.IH [OF this] True show ?thesis by auto
  next
    case False
    then show ?thesis by auto
  qed
qed

lemma copyPages_all:
  "list_all intact pdf \<Longrightarrow> copyPages pdf (getPageIndices pdf) = Inr pdf"
  using copyPages_ok [of "[0 ..< length pdf]" pdf]
  by (simp add: getPageIndices_def list_all_length map_nth)

lemma copyPages_all_fails:
  "\<not> list_all intact pdf \<Longrightarrow> \<exists>e. copyPages pdf (getPageIndices pdf) = Inl e"
  by (rule copyPages_fails) (auto simp: getPageIndices_def list_all_length)

subsection \<open>Split\<close>

lemma split_pages_ok:
  "\<forall>k\<in>set ks. k < length pdf \<and> intact (pdf ! k) \<Longrightarrow>
   snd (split_pages pdf ks i n results s) =
     Inr (results @ map (\<lambda>(k, j). \<lparr>url = [SourcePage (pdf ! k)], pageNum = j + 1\<rparr>)
                      (zip ks [i ..< i + length ks]))"
proof (induction ks arbitrary: i results s)
  case Nil
  show ?case by simp
next
  case (Cons k ks)
  have "[i ..< i + Suc (length ks)] = i # [Suc i ..< i + Suc (length ks)]"
    by (rule upt_conv_Cons) simp
  then have "[i ..< i + length (k # ks)] = i # [Suc i ..< Suc i + length ks]"
    by simp
  with Cons show ?case
    by (simp add: Let_def PDFDocument_save_def)
qed

lemma split_pages_fails:
  "\<exists>k\<in>set ks. \<not> (k < length pdf \<and> intact (pdf ! k)) \<Longrightarrow>
   \<exists>e. snd (split_pages pdf ks i n results s) = Inl e"
proof (induction ks arbitrary: i results s)
  case Nil
  then show ?case by simp
next
  case (Cons k ks)
  show ?case
  proof (cases "k < length pdf \<and> intact (pdf ! k)")
    case True
    with Cons.prems have "\<exists>k\<in>set ks. \<not> (k < length pdf \<and> intact (pdf ! k))" by auto
    from Cons.IH [OF this] True show ?thesis by (simp add: Let_def)
  next
    case False
    then show ?thesis by (auto simp: Let_def)
  qed
qed

lemma split_pages_state:
  "s_splitPages (fst (split_pages pdf ks i n results s)) = s_splitPages s"
  by (induction ks arbitrary: i results s) (simp_all add: Let_def split: sum.splits list.splits)

lemma split_succeeds:
  assumes "s_file s = Some f" and "parses f" and "list_all intact (file_pages f)"
  shows "s_splitPages (split s) =
           Some (map (\<lambda>k. \<lparr>url = [SourcePage (file_pages f ! k)], pageNum = k + 1\<rparr>) [0 ..< length (file_pages f)])"
proof -
  let ?pgs = "file_pages f"
  let ?s1 = "s\<lparr>s_error := [], s_isSplitting := True, s_progress := LoadingPDF, s_splitPages := None\<rparr>"
  have "\<forall>k\<in>set (getPageIndices ?pgs). k < length ?pgs \<and> intact (?pgs ! k)"
    using assms(3) by (simp add: getPageIndices_def list_all_length)
  from split_pages_ok [OF this, of 0 "length (getPageIndices ?pgs)" "[]" ?s1]
  have "snd (split_pages ?pgs (getPageIndices ?pgs) 0 (length (getPageIndices ?pgs)) [] ?s1) =
          Inr (map (\<lambda>(k, j). \<lparr>url = [SourcePage (?pgs ! k)], pageNum = j + 1\<rparr>)
                 (zip [0 ..< length ?pgs] [0 ..< length ?pgs]))"
    by (simp add: getPageIndices_def)
  moreover have "map (\<lambda>(k, j). \<lparr>url = [SourcePage (?pgs ! k)], pageNum = j + 1\<rparr>)
                   (zip [0 ..< length ?pgs] [0 ..< length ?pgs]) =
                 map (\<lambda>k. \<lparr>url = [SourcePage (?pgs ! k)], pageNum = k + 1\<rparr>) [0 ..< length ?pgs]"
    by (simp add: zip_same_conv_map)
  ultimately have "snd (split_pages ?pgs (getPageIndices ?pgs) 0 (length (getPageIndices ?pgs)) [] ?s1) =
          Inr (map (\<lambda>k. \<lparr>url = [SourcePage (?pgs ! k)], pageNum = k + 1\<rparr>) [0 ..< length ?pgs])"
    by simp
  moreover have "PDFDocument_load True f = Inr ?pgs"
    using assms(2) by (simp add: PDFDocument_load_def)
  ultimately show ?thesis
    using assms(1) by (auto simp: split_def Let_def split: prod.splits)
qed

text \<open>
  Claim C1 (as amended). In split mode a page that cannot be copied aborts the whole run:
  the failure is reported and no page output is emitted, because \<open>results\<close> reaches
  \<open>setSplitPages\<close> only after the loop and the single \<^verbatim>\<open>try\<close> block encloses the
  loop. Pages split before the failure are dropped with the local array.
\<close>

theorem split_aborts_on_page_failure:
  assumes "s_file s = Some f" and "PDFDocument_load True f = Inr pgs" and "\<not> list_all intact pgs"
  shows "s_splitPages (split s) = None \<and> s_error (split s) = ''Failed to split PDF. Try a different file.''"
proof -
  have "\<exists>k\<in>set (getPageIndices pgs). \<not> (k < length pgs \<and> intact (pgs ! k))"
    using assms(3) by (auto simp: getPageIndices_def list_all_length)
  from split_pages_fails [OF this]
  obtain e where "snd (split_pages pgs (getPageIndices pgs) 0 (length (getPageIndices pgs)) []
      (s\<lparr>s_error := '''', s_isSplitting := True, s_progress := LoadingPDF, s_splitPages := None\<rparr>)) = Inl e"
    by blast
  moreover have "s_splitPages (fst (split_pages pgs (getPageIndices pgs) 0 (length (getPageIndices pgs)) []
      (s\<lparr>s_error := '''', s_isSplitting := True, s_progress := LoadingPDF, s_splitPages := None\<rparr>))) = None"
    by (simp add: split_pages_state)
  ultimately show ?thesis
    using assms(1,2) by (auto simp: split_def Let_def split: prod.splits)
qed


theorem split_aborts_on_page_failure_witness:
  "s_file (split_idle five_pages_third_corrupt) = Some five_pages_third_corrupt \<and>
   PDFDocument_load True five_pages_third_corrupt = Inr (file_pages five_pages_third_corrupt) \<and>
   \<not> list_all intact (file_pages five_pages_third_corrupt) \<and>
   s_splitPages (split (split_idle five_pages_third_corrupt)) = None \<and>
   s_error (split (split_idle five_pages_third_corrupt)) =
     ''Failed to split PDF. Try a different file.''"
proof -
  have a: "s_file (split_idle five_pages_third_corrupt) = Some five_pages_third_corrupt"
    by (simp add: split_idle_def)
  have b: "PDFDocument_load True five_pages_third_corrupt = Inr (file_pages five_pages_third_corrupt)"
    by (simp add: PDFDocument_load_def five_pages_third_corrupt_def pdf_of_def)
  have c: "\<not> list_all intact (file_pages five_pages_third_corrupt)"
    by (simp add: five_pages_third_corrupt_def pdf_of_def letter_page_def)
  show ?thesis
    using split_aborts_on_page_failure [OF a b c] a b c by simp
qed

text \<open>
  The claim as the specification words it (four page outputs and one reported failure for
  a five-page document whose third page is corrupted) fails: nothing is emitted.
\<close>

theorem split_best_effort_counterexample:
  "s_splitPages (split (split_idle five_pages_third_corrupt)) = None \<and>
   map_option length (s_splitPages (split (split_idle five_pages_third_corrupt))) \<noteq> Some 4"
  by code_simp

subsection \<open>Compress\<close>

lemma render_page_ok:
  "renders maxWidth pg \<Longrightarrow> render_page quality maxWidth p pg = Inr (page_image quality maxWidth pg)"
  by (simp add: render_page_def renders_def has_pixels_def page_image_def Let_def not_le)

lemma render_page_fails:
  "\<not> renders maxWidth pg \<Longrightarrow> \<exists>e. render_page quality maxWidth p pg = Inl e"
  by (auto simp: render_page_def renders_def has_pixels_def Let_def not_less)

lemma render_pages_ok:
  "list_all (renders maxWidth) pgs \<Longrightarrow>
   snd (render_pages resetAt quality maxWidth pgs p n outPdf s) =
     Inr (outPdf @ map (page_image quality maxWidth) pgs)"
  by (induction pgs arbitrary: p outPdf s) (simp_all add: render_page_ok Let_def)

lemma render_pages_fails:
  "\<not> list_all (renders maxWidth) pgs \<Longrightarrow>
   \<exists>e. snd (render_pages resetAt quality maxWidth pgs p n outPdf s) = Inl e"
proof (induction pgs arbitrary: p outPdf s)
  case Nil
  then show ?case by simp
next
  case (Cons pg pgs)
  show ?case
  proof (cases "renders maxWidth pg")
    case True
    with Cons.prems have "\<not> list_all (renders maxWidth) pgs" by simp
    from Cons.IH [OF this] True show ?thesis
      by (simp add: render_page_ok Let_def)
  next
    case False
    from render_page_fails [OF this]
    obtain e where "render_page quality maxWidth p pg = Inl e" by blast
    then show ?thesis by (simp add: Let_def)
  qed
qed

lemma render_pages_resultUrl:
  "c_resultUrl s = None \<Longrightarrow>
   c_resultUrl (fst (render_pages resetAt quality maxWidth pgs p n outPdf s)) = None"
  by (induction pgs arbitrary: p outPdf s)
     (simp_all add: Let_def setPageProgress_def reset_def split: sum.splits)

lemma render_pages_error:
  "c_error s = [] \<Longrightarrow>
   c_error (fst (render_pages resetAt quality maxWidth pgs p n outPdf s)) = []"
  by (induction pgs arbitrary: p outPdf s)
     (simp_all add: Let_def setPageProgress_def reset_def split: sum.splits)

lemma render_pages_stops:
  "list_all (renders maxWidth) good \<Longrightarrow> \<not> renders maxWidth bad \<Longrightarrow>
   c_progress (fst (render_pages undisturbed quality maxWidth (good @ bad # rest) p n outPdf s)) =
     RenderingPage (p + length good) n"
proof (induction good arbitrary: p outPdf s)
  case Nil
  from render_page_fails [OF Nil(2)]
  obtain e where "render_page quality maxWidth p bad = Inl e" by blast
  then show ?case
    by (simp add: Let_def undisturbed_def setPageProgress_def)
next
  case (Cons pg good)
  then show ?case
    by (simp add: render_page_ok Let_def undisturbed_def)
qed

lemma render_pages_observed:
  "c_observed (fst (render_pages undisturbed quality maxWidth pgs p n outPdf s)) =
     c_observed s @ map (\<lambda>k. \<lparr>current = k, total = n\<rparr>)
       [p ..< p + min (length pgs) (Suc (length (takeWhile (renders maxWidth) pgs)))]"
proof (induction pgs arbitrary: p outPdf s)
  case Nil
  show ?case by simp
next
  case (Cons pg pgs)
  show ?case
  proof (cases "renders maxWidth pg")
    case True
    have "[p ..< p + Suc m] = p # [Suc p ..< Suc p + m]" for m
      by (simp add: upt_conv_Cons)
    with True Cons.IH show ?thesis
      by (simp add: render_page_ok Let_def undisturbed_def setPageProgress_def)
  next
    case False
    from render_page_fails [OF this]
    obtain e where "render_page quality maxWidth p pg = Inl e" by blast
    with False show ?thesis
      by (simp add: Let_def undisturbed_def setPageProgress_def)
  qed
qed


lemma compressViaCanvas_alt:
  "compressViaCanvas resetAt f quality maxWidth s =
     (if \<not> pdfjs_opens f then (s, Inl ParseError)
      else
        (let run = render_pages resetAt quality maxWidth (file_pages f) 1 (length (file_pages f)) []
                     (setPageProgress \<lparr>current = 0, total = length (file_pages f)\<rparr> s)
         in case snd run of
              Inl e \<Rightarrow> (fst run, Inl e)
            | Inr outPdf \<Rightarrow>
                ((fst run)\<lparr>c_progress := Finalizing\<rparr>, Inr (PDFDocument_save outPdf))))"
  by (simp add: compressViaCanvas_def Let_def split: prod.splits sum.splits)

lemma compressViaCanvas_result:
  assumes "pdfjs_opens f" and "list_all (renders maxWidth) (file_pages f)"
  shows "snd (compressViaCanvas resetAt f quality maxWidth s) =
           Inr (PDFDocument_save (map (page_image quality maxWidth) (file_pages f)))"
proof -
  have "snd (render_pages resetAt quality maxWidth (file_pages f) 1 (length (file_pages f)) []
      (setPageProgress \<lparr>current = 0, total = length (file_pages f)\<rparr> s)) =
      Inr (map (page_image quality maxWidth) (file_pages f))"
    using assms(2) by (simp add: render_pages_ok)
  with assms(1) show ?thesis
    by (simp add: compressViaCanvas_alt Let_def)
qed

lemma compressViaCanvas_Inr:
  assumes "compressViaCanvas resetAt f quality maxWidth s = (s', Inr out)"
  shows "pdfjs_opens f \<and> list_all (renders maxWidth) (file_pages f) \<and>
         out = PDFDocument_save (map (page_image quality maxWidth) (file_pages f))"
proof -
  have opens: "pdfjs_opens f"
    using assms by (auto simp: compressViaCanvas_def split: if_splits)
  have all: "list_all (renders maxWidth) (file_pages f)"
  proof (rule ccontr)
    assume "\<not> list_all (renders maxWidth) (file_pages f)"
    from render_pages_fails [OF this]
    obtain e where "snd (render_pages resetAt quality maxWidth (file_pages f) 1 (length (file_pages f)) []
      (setPageProgress \<lparr>current = 0, total = length (file_pages f)\<rparr> s)) = Inl e"
      by blast
    with assms opens show False
      by (simp add: compressViaCanvas_alt Let_def)
  qed
  from opens all have "snd (compressViaCanvas resetAt f quality maxWidth s) =
      Inr (PDFDocument_save (map (page_image quality maxWidth) (file_pages f)))"
    by (rule compressViaCanvas_result)
  with assms opens all show ?thesis by simp
qed

lemma compressViaCanvas_Inl:
  assumes "\<not> (pdfjs_opens f \<and> list_all (renders maxWidth) (file_pages f))"
  shows "\<exists>e. snd (compressViaCanvas resetAt f quality maxWidth s) = Inl e"
proof (cases "pdfjs_opens f")
  case False
  then show ?thesis by (simp add: compressViaCanvas_def)
next
  case True
  with assms have "\<not> list_all (renders maxWidth) (file_pages f)" by simp
  from render_pages_fails [OF this]
  obtain e where "snd (render_pages resetAt quality maxWidth (file_pages f) 1 (length (file_pages f)) []
      (setPageProgress \<lparr>current = 0, total = length (file_pages f)\<rparr> s)) = Inl e"
    by blast
  with True show ?thesis
    by (simp add: compressViaCanvas_alt Let_def)
qed

lemma compressViaCanvas_state:
  assumes "c_resultUrl s = None" and "c_error s = []"
  shows "c_resultUrl (fst (compressViaCanvas resetAt f quality maxWidth s)) = None \<and>
         c_error (fst (compressViaCanvas resetAt f quality maxWidth s)) = []"
proof -
  let ?s1 = "setPageProgress \<lparr>current = 0, total = length (file_pages f)\<rparr> s"
  have "c_resultUrl ?s1 = None" and "c_error ?s1 = []"
    using assms by (simp_all add: setPageProgress_def)
  then have "c_resultUrl (fst (render_pages resetAt quality maxWidth (file_pages f) 1
                 (length (file_pages f)) [] ?s1)) = None"
    and "c_error (fst (render_pages resetAt quality maxWidth (file_pages f) 1
                 (length (file_pages f)) [] ?s1)) = []"
    by (simp_all add: render_pages_resultUrl render_pages_error)
  with assms show ?thesis
    by (simp add: compressViaCanvas_alt Let_def split: sum.splits)
qed

lemma compress_succeeds:
  assumes "c_file s = Some f" and "pdfjs_opens f" and "list_all (renders 1400) (file_pages f)"
  shows "c_resultUrl (compress resetAt s) = Some (PDFDocument_save (map (page_image (binary64 (6 / 10)) 1400) (file_pages f)))"
    and "c_progress (compress resetAt s) = Completed"
    and "c_error (compress resetAt s) = []"
proof -
  let ?s1 = "setPageProgress \<lparr>current = 0, total = 0\<rparr>
               (s\<lparr>c_error := [], c_isProcessing := True, c_progress := StartingCompression,
                  c_resultUrl := None\<rparr>)"
  obtain s2 r where run: "compressViaCanvas resetAt f (binary64 (6 / 10)) 1400 ?s1 = (s2, r)"
    by (cases "compressViaCanvas resetAt f (binary64 (6 / 10)) 1400 ?s1")
  have "snd (compressViaCanvas resetAt f (binary64 (6 / 10)) 1400 ?s1) =
          Inr (PDFDocument_save (map (page_image (binary64 (6 / 10)) 1400) (file_pages f)))"
    using assms(2,3) by (rule compressViaCanvas_result)
  with run have r: "r = Inr (PDFDocument_save (map (page_image (binary64 (6 / 10)) 1400) (file_pages f)))" by simp
  have "c_error (fst (compressViaCanvas resetAt f (binary64 (6 / 10)) 1400 ?s1)) = []"
    by (rule compressViaCanvas_state [THEN conjunct2]) (simp_all add: setPageProgress_def)
  with run have e: "c_error s2 = []" by simp
  show "c_resultUrl (compress resetAt s) = Some (PDFDocument_save (map (page_image (binary64 (6 / 10)) 1400) (file_pages f)))"
    using assms(1) run r by (simp add: compress_def Let_def)
  show "c_progress (compress resetAt s) = Completed"
    using assms(1) run r by (simp add: compress_def Let_def)
  show "c_error (compress resetAt s) = []"
    using assms(1) run r e by (simp add: compress_def Let_def)
qed

lemma compress_fails:
  assumes "c_file s = Some f" and "\<not> (pdfjs_opens f \<and> list_all (renders 1400) (file_pages f))"
  shows "c_resultUrl (compress resetAt s) = None"
    and "c_error (compress resetAt s) =
      ''Compression failed. Try a different PDF or use server-side tools for heavier compression.''"
proof -
  let ?s1 = "setPageProgress \<lparr>current = 0, total = 0\<rparr>
               (s\<lparr>c_error := [], c_isProcessing := True, c_progress := StartingCompression,
                  c_resultUrl := None\<rparr>)"
  obtain s2 r where run: "compressViaCanvas resetAt f (binary64 (6 / 10)) 1400 ?s1 = (s2, r)"
    by (cases "compressViaCanvas resetAt f (binary64 (6 / 10)) 1400 ?s1")
  from compressViaCanvas_Inl [OF assms(2)]
  obtain e where "snd (compressViaCanvas resetAt f (binary64 (6 / 10)) 1400 ?s1) = Inl e" by blast
  with run have r: "r = Inl e" by simp
  have "c_resultUrl (fst (compressViaCanvas resetAt f (binary64 (6 / 10)) 1400 ?s1)) = None"
    by (rule compressViaCanvas_state [THEN conjunct1]) (simp_all add: setPageProgress_def)
  with run have u: "c_resultUrl s2 = None" by simp
  show "c_resultUrl (compress resetAt s) = None"
    using assms(1) run r u by (simp add: compress_def Let_def)
  show "c_error (compress resetAt s) =
      ''Compression failed. Try a different PDF or use server-side tools for heavier compression.''"
    using assms(1) run r by (simp add: compress_def Let_def)
qed


lemma js_round_of_int: "js_round (of_int k) = k"
  by (simp add: js_round_def) linarith

lemma is_double_612: "is_double 612"
  unfolding is_double_def by code_simp

lemma is_double_792: "is_double 792"
  unfolding is_double_def by code_simp

lemma render_scale_narrow:
  assumes "0 < w" and "w \<le> maxWidth"
  shows "render_scale maxWidth w = 1"
  using js_div_ge_one [OF assms] assms(1) by (simp add: render_scale_def)

lemma page_image_letter_page:
  "page_image quality 1400 (letter_page c ok) =
     \<lparr>img_width = 612, img_height = 792, img_source = c, img_quality = quality\<rparr>"
proof -
  have "render_scale 1400 612 = 1"
    by (rule render_scale_narrow) simp_all
  moreover have "js_round 612 = 612" and "js_round 792 = 792"
    using js_round_of_int [of 612] js_round_of_int [of 792] by simp_all
  ultimately show ?thesis
    by (simp add: page_image_def letter_page_def js_mul_one is_double_612 is_double_792)
qed

lemma render_scale_wide: "render_scale 1400 2000 = binary64 (7 / 10)"
proof -
  have "binary64 (7 / 10) \<le> 1"
    using binary64_le_int [of "7 / 10" 1] by simp
  then show ?thesis
    by (simp add: render_scale_def js_div_def)
qed

lemma wide_page_width: "js_mul 2000 (binary64 (7 / 10)) = 1400"
  by code_simp

lemma wide_page_height: "js_mul 1000 (binary64 (7 / 10)) = 700"
  by code_simp

lemma page_image_wide_page:
  "page_image quality 1400 (wide_page c) =
     \<lparr>img_width = 1400, img_height = 700, img_source = c, img_quality = quality\<rparr>"
proof -
  have "js_round 1400 = 1400" and "js_round 700 = 700"
    using js_round_of_int [of 1400] js_round_of_int [of 700] by simp_all
  then show ?thesis
    by (simp add: page_image_def wide_page_def render_scale_wide wide_page_width wide_page_height)
qed

lemma renders_page_image:
  "renders maxWidth pg \<longleftrightarrow>
     intact pg \<and> 0 < img_width (page_image quality maxWidth pg) \<and>
     0 < img_height (page_image quality maxWidth pg)"
  by (simp add: renders_def has_pixels_def page_image_def)

lemma renders_letter_page: "renders 1400 (letter_page c True)"
  using renders_page_image [of 1400 "letter_page c True" 0]
  by (simp add: page_image_letter_page) (simp add: letter_page_def)

lemma renders_wide_page: "renders 1400 (wide_page c)"
  using renders_page_image [of 1400 "wide_page c" 0]
  by (simp add: page_image_wide_page) (simp add: wide_page_def)

lemma not_renders_corrupt: "\<not> renders 1400 (letter_page c False)"
  by (simp add: renders_def letter_page_def)

text \<open>
  Claim C2. In rasterCompress mode the first page that fails to render aborts the run:
  for a document whose pages before \<open>bad\<close> all render, the handler ends with the error
  message set and no result URL, whatever else happens meanwhile, and the undisturbed run
  is left at the failing page, so no later page is rendered. The pages already drawn into
  \<open>outPdf\<close> are lost with it: no partial document is returned.
\<close>

theorem compress_aborts_on_page_failure:
  assumes "c_file s = Some f" and "pdfjs_opens f"
    and "file_pages f = good @ bad # rest"
    and "list_all (renders 1400) good" and "\<not> renders 1400 bad"
  shows "c_resultUrl (compress resetAt s) = None \<and>
         c_error (compress resetAt s) =
           ''Compression failed. Try a different PDF or use server-side tools for heavier compression.'' \<and>
         c_progress (compress undisturbed s) = RenderingPage (length good + 1) (length (file_pages f))"
proof -
  have bad: "\<not> (pdfjs_opens f \<and> list_all (renders 1400) (file_pages f))"
    using assms(3,5) by simp
  let ?s1 = "setPageProgress \<lparr>current = 0, total = 0\<rparr>
               (s\<lparr>c_error := [], c_isProcessing := True, c_progress := StartingCompression,
                  c_resultUrl := None\<rparr>)"
  let ?run = "render_pages undisturbed (binary64 (6 / 10)) 1400 (good @ bad # rest) 1 (length (file_pages f)) []
                (setPageProgress \<lparr>current = 0, total = length (file_pages f)\<rparr> ?s1)"
  have stop: "c_progress (fst ?run) = RenderingPage (1 + length good) (length (file_pages f))"
    using assms(4,5) by (rule render_pages_stops)
  have "\<not> list_all (renders 1400) (good @ bad # rest)"
    using assms(5) by simp
  from render_pages_fails [OF this]
  obtain e where "snd ?run = Inl e" by blast
  with stop assms(1,2,3)
  have "c_progress (compress undisturbed s) = RenderingPage (length good + 1) (length (file_pages f))"
    by (simp add: compress_def compressViaCanvas_alt Let_def)
  with compress_fails [OF assms(1) bad] show ?thesis by simp
qed

theorem compress_aborts_on_page_failure_witness:
  "c_file (compress_idle five_pages_third_corrupt) = Some five_pages_third_corrupt \<and>
   pdfjs_opens five_pages_third_corrupt \<and>
   file_pages five_pages_third_corrupt =
     [letter_page 1 True, letter_page 2 True] @ letter_page 3 False #
     [letter_page 4 True, letter_page 5 True] \<and>
   list_all (renders 1400) [letter_page 1 True, letter_page 2 True] \<and>
   \<not> renders 1400 (letter_page 3 False) \<and>
   c_resultUrl (compress undisturbed (compress_idle five_pages_third_corrupt)) = None \<and>
   c_error (compress undisturbed (compress_idle five_pages_third_corrupt)) =
     ''Compression failed. Try a different PDF or use server-side tools for heavier compression.'' \<and>
   c_progress (compress undisturbed (compress_idle five_pages_third_corrupt)) = RenderingPage 3 5"
proof -
  have a: "c_file (compress_idle five_pages_third_corrupt) = Some five_pages_third_corrupt"
    by (simp add: compress_idle_def)
  have b: "pdfjs_opens five_pages_third_corrupt"
    by (simp add: five_pages_third_corrupt_def pdf_of_def)
  have c: "file_pages five_pages_third_corrupt =
     [letter_page 1 True, letter_page 2 True] @ letter_page 3 False #
     [letter_page 4 True, letter_page 5 True]"
    by (simp add: five_pages_third_corrupt_def pdf_of_def)
  have d: "list_all (renders 1400) [letter_page 1 True, letter_page 2 True]"
    by (simp add: renders_letter_page)
  have e: "\<not> renders 1400 (letter_page 3 False)"
    by (rule not_renders_corrupt)
  have n: "length (file_pages five_pages_third_corrupt) = 5"
    by (simp add: c)
  show ?thesis
    using compress_aborts_on_page_failure [OF a b c d e, of undisturbed] a b c d e n by simp
qed

text \<open>
  Claim C9 (as amended). The orchestrator has no cancellation flag and checks nothing
  between pages: whenever the user presses Reset during a run (the only way the
  component offers to abandon it), the loop still renders every remaining page, and a
  run whose pages all render ends with \<open>Completed\<close> and with the full output document.
\<close>

theorem compress_ignores_abandonment:
  assumes "c_file s = Some f" and "pdfjs_opens f" and "list_all (renders 1400) (file_pages f)"
  shows "c_progress (compress resetAt s) = Completed \<and>
         c_resultUrl (compress resetAt s) = Some (PDFDocument_save (map (page_image (binary64 (6 / 10)) 1400) (file_pages f))) \<and>
         c_resultUrl (compress resetAt s) = c_resultUrl (compress undisturbed s)"
  using compress_succeeds [OF assms, of resetAt] compress_succeeds(1) [OF assms, of undisturbed]
  by simp

theorem compress_ignores_abandonment_witness:
  "c_file (compress_idle three_pages) = Some three_pages \<and>
   pdfjs_opens three_pages \<and>
   list_all (renders 1400) (file_pages three_pages) \<and>
   c_progress (compress reset_during_page_two (compress_idle three_pages)) = Completed \<and>
   c_resultUrl (compress reset_during_page_two (compress_idle three_pages)) =
     Some (PDFDocument_save (map (page_image (binary64 (6 / 10)) 1400) (file_pages three_pages)))"
proof -
  have a: "c_file (compress_idle three_pages) = Some three_pages"
    by (simp add: compress_idle_def)
  have b: "pdfjs_opens three_pages"
    by (simp add: three_pages_def pdf_of_def)
  have c: "list_all (renders 1400) (file_pages three_pages)"
    by (simp add: three_pages_def pdf_of_def renders_letter_page renders_wide_page)
  show ?thesis
    using compress_ignores_abandonment [OF a b c, of reset_during_page_two] a b c by simp
qed

text \<open>
  The claim as the specification words it fails: with Reset pressed while page 2 of a
  three-page document is rendered, the run goes on, emits \<open>Completed\<close> and publishes
  a three-page output.
\<close>

theorem cancellation_counterexample:
  "c_progress (compress reset_during_page_two (compress_idle three_pages)) = Completed \<and>
   map_option length (c_resultUrl (compress reset_during_page_two (compress_idle three_pages))) =
     Some 3"
proof -
  have a: "c_file (compress_idle three_pages) = Some three_pages"
    by (simp add: compress_idle_def)
  have b: "pdfjs_opens three_pages"
    by (simp add: three_pages_def pdf_of_def)
  have c: "list_all (renders 1400) (file_pages three_pages)"
    by (simp add: three_pages_def pdf_of_def renders_letter_page renders_wide_page)
  have n: "length (file_pages three_pages) = 3"
    by (simp add: three_pages_def pdf_of_def)
  show ?thesis
    using compress_succeeds(1,2) [OF a b c, of reset_during_page_two] n
    by (simp add: length_PDFDocument_save)
qed

lemma compressViaCanvas_reported:
  assumes "pdfjs_opens f"
  shows "reported s (fst (compressViaCanvas undisturbed f quality maxWidth s)) =
           map (\<lambda>k. \<lparr>current = k, total = length (file_pages f)\<rparr>)
             [0 ..< Suc (min (length (file_pages f))
                             (Suc (length (takeWhile (renders maxWidth) (file_pages f)))))]"
proof -
  let ?n = "length (file_pages f)"
  let ?m = "min ?n (Suc (length (takeWhile (renders maxWidth) (file_pages f))))"
  let ?run = "render_pages undisturbed quality maxWidth (file_pages f) 1 ?n []
                (setPageProgress \<lparr>current = 0, total = ?n\<rparr> s)"
  have "c_observed (fst ?run) =
          c_observed s @ \<lparr>current = 0, total = ?n\<rparr> # map (\<lambda>k. \<lparr>current = k, total = ?n\<rparr>) [1 ..< 1 + ?m]"
    by (simp add: render_pages_observed setPageProgress_def)
  moreover have "[0 ..< Suc ?m] = 0 # [Suc 0 ..< Suc ?m]"
    by (rule upt_conv_Cons) simp
  then have "[0 ..< Suc ?m] = 0 # [1 ..< 1 + ?m]"
    by simp
  ultimately have "c_observed (fst ?run) =
      c_observed s @ map (\<lambda>k. \<lparr>current = k, total = ?n\<rparr>) [0 ..< Suc ?m]"
    by simp
  moreover have "c_observed (fst (compressViaCanvas undisturbed f quality maxWidth s)) =
      c_observed (fst ?run)"
    using assms by (simp add: compressViaCanvas_alt Let_def split: sum.splits)
  ultimately show ?thesis
    by (simp add: reported_def)
qed

text \<open>
  Claim C7 (as amended). Across a run of \<open>compressViaCanvas\<close> over an \<open>N\<close>-page
  document during which no other handler of the component runs, the \<open>current\<close> values
  handed to the progress observer never decrease (also when the run fails), and a run
  that succeeds reports exactly \<open>0, 1, \<dots>, N\<close>: every page is reported, and \<open>N\<close>
  occurs exactly once. Pressing Reset during the run puts a 0 into the sequence.
\<close>

theorem progress_monotonic:
  assumes "compressViaCanvas undisturbed f quality maxWidth s = (s', r)"
  shows "sorted (map current (reported s s')) \<and>
         (r = Inr out \<longrightarrow>
            map current (reported s s') = [0 ..< Suc (length (file_pages f))] \<and>
            count_list (map current (reported s s')) (length (file_pages f)) = 1 \<and>
            (\<forall>p. 1 \<le> p \<and> p \<le> length (file_pages f) \<longrightarrow> p \<in> set (map current (reported s s'))))"
proof (cases "pdfjs_opens f")
  case False
  with assms have "s' = s" and "r = Inl ParseError"
    by (simp_all add: compressViaCanvas_def)
  then show ?thesis by (simp add: reported_def)
next
  case True
  let ?n = "length (file_pages f)"
  let ?m = "min ?n (Suc (length (takeWhile (renders maxWidth) (file_pages f))))"
  have "map current (map (\<lambda>k. \<lparr>current = k, total = ?n\<rparr>) [0 ..< Suc ?m]) = [0 ..< Suc ?m]"
    by (simp add: comp_def del: upt_Suc)
  with compressViaCanvas_reported [OF True, of s quality maxWidth] assms
  have cur: "map current (reported s s') = [0 ..< Suc ?m]"
    by simp
  have mono: "sorted (map current (reported s s'))"
    unfolding cur by (rule sorted_upt)
  have "map current (reported s s') = [0 ..< Suc ?n] \<and>
        count_list (map current (reported s s')) ?n = 1 \<and>
        (\<forall>p. 1 \<le> p \<and> p \<le> ?n \<longrightarrow> p \<in> set (map current (reported s s')))"
    if "r = Inr out"
  proof -
    from assms that have "list_all (renders maxWidth) (file_pages f)"
      using compressViaCanvas_Inr by blast
    then have "length (takeWhile (renders maxWidth) (file_pages f)) = ?n"
      by (simp add: list_all_iff takeWhile_eq_all_conv [THEN iffD2])
    then have "?m = ?n" by simp
    with cur have c: "map current (reported s s') = [0 ..< Suc ?n]" by simp
    have "count_list [0 ..< Suc ?n] ?n = 1"
      by (simp add: count_list_0_iff)
    with c show ?thesis by auto
  qed
  with mono show ?thesis by blast
qed

theorem progress_monotonic_witness:
  "compressViaCanvas undisturbed three_pages (binary64 (6 / 10)) 1400 (compress_idle three_pages) =
     (fst (compressViaCanvas undisturbed three_pages (binary64 (6 / 10)) 1400 (compress_idle three_pages)),
      Inr (PDFDocument_save (map (page_image (binary64 (6 / 10)) 1400) (file_pages three_pages)))) \<and>
   sorted (map current (reported (compress_idle three_pages)
     (fst (compressViaCanvas undisturbed three_pages (binary64 (6 / 10)) 1400 (compress_idle three_pages))))) \<and>
   map current (reported (compress_idle three_pages)
     (fst (compressViaCanvas undisturbed three_pages (binary64 (6 / 10)) 1400 (compress_idle three_pages)))) =
     [0, 1, 2, 3] \<and>
   count_list (map current (reported (compress_idle three_pages)
     (fst (compressViaCanvas undisturbed three_pages (binary64 (6 / 10)) 1400 (compress_idle three_pages))))) 3 = 1"
proof -
  let ?run = "compressViaCanvas undisturbed three_pages (binary64 (6 / 10)) 1400 (compress_idle three_pages)"
  have b: "pdfjs_opens three_pages"
    by (simp add: three_pages_def pdf_of_def)
  have c: "list_all (renders 1400) (file_pages three_pages)"
    by (simp add: three_pages_def pdf_of_def renders_letter_page renders_wide_page)
  have n: "length (file_pages three_pages) = 3"
    by (simp add: three_pages_def pdf_of_def)
  have "snd ?run = Inr (PDFDocument_save (map (page_image (binary64 (6 / 10)) 1400) (file_pages three_pages)))"
    using b c by (rule compressViaCanvas_result)
  then have run: "?run = (fst ?run, Inr (PDFDocument_save (map (page_image (binary64 (6 / 10)) 1400) (file_pages three_pages))))"
    by (metis prod.collapse)
  have u: "[0 ..< Suc 3] = [0, 1, 2, 3]"
    by (simp add: upt_rec)
  show ?thesis
    using progress_monotonic [OF run] run n u by simp
qed

text \<open>
  The claim as the specification words it fails: with Reset pressed while page 2 of a
  three-page document is rendered, the run succeeds and the observer is told
  \<open>0, 1, 2, 0, 3\<close>.
\<close>

theorem progress_monotonic_counterexample:
  "snd (compressViaCanvas reset_during_page_two three_pages (binary64 (6 / 10)) 1400
          (compress_idle three_pages)) =
     Inr (PDFDocument_save (map (page_image (binary64 (6 / 10)) 1400) (file_pages three_pages))) \<and>
   map current (reported (compress_idle three_pages)
     (fst (compressViaCanvas reset_during_page_two three_pages (binary64 (6 / 10)) 1400
             (compress_idle three_pages)))) = [0, 1, 2, 0, 3] \<and>
   \<not> sorted (map current (reported (compress_idle three_pages)
     (fst (compressViaCanvas reset_during_page_two three_pages (binary64 (6 / 10)) 1400
             (compress_idle three_pages)))))"
proof -
  have b: "pdfjs_opens three_pages"
    by (simp add: three_pages_def pdf_of_def)
  have c: "list_all (renders 1400) (file_pages three_pages)"
    by (simp add: three_pages_def pdf_of_def renders_letter_page renders_wide_page)
  have r: "snd (compressViaCanvas reset_during_page_two three_pages (binary64 (6 / 10)) 1400
          (compress_idle three_pages)) =
     Inr (PDFDocument_save (map (page_image (binary64 (6 / 10)) 1400) (file_pages three_pages)))"
    using b c by (rule compressViaCanvas_result)
  have o: "map current (reported (compress_idle three_pages)
     (fst (compressViaCanvas reset_during_page_two three_pages (binary64 (6 / 10)) 1400
             (compress_idle three_pages)))) = [0, 1, 2, 0, 3]"
    by (simp add: compressViaCanvas_alt three_pages_def pdf_of_def Let_def render_page_ok
        renders_letter_page renders_wide_page reset_during_page_two_def setPageProgress_def
        reset_def reported_def compress_idle_def)
  show ?thesis
    unfolding o using r by simp
qed

lemma js_round_mono: "x \<le> y \<Longrightarrow> js_round x \<le> js_round y"
  by (simp add: js_round_def floor_mono)

lemma has_pixels_width_nonzero: "has_pixels maxWidth pg \<Longrightarrow> native_width pg \<noteq> 0"
  by (auto simp: has_pixels_def js_round_def js_mul_def binary64_def)

text \<open>
  Claim C3. Every page that the compress pipeline rasterizes is drawn at the scale
  \<open>min 1 (maxWidth / nativeWidth)\<close> on a canvas of
  \<open>round (nativeWidth * scale)\<close> by \<open>round (nativeHeight * scale)\<close> pixels, which is the
  size of the embedded image; the quotient and the two products are those of JavaScript,
  rounded to doubles. A page of positive width no wider than \<open>maxWidth\<close> is drawn at
  scale 1 and keeps its width (exactly, when the width is a whole number of pixels); a
  page 2000 wide with \<open>maxWidth = 1400\<close> is drawn at the scale that JavaScript writes
  \<^verbatim>\<open>0.7\<close> and embedded 1400 wide.
\<close>

theorem raster_scale_and_size:
  assumes "compressViaCanvas resetAt f quality maxWidth s = (s', Inr out)"
    and "i < length (file_pages f)"
    and "w = native_width (file_pages f ! i)" and "h = native_height (file_pages f ! i)"
  shows "w \<noteq> 0 \<and> render_scale maxWidth w = min 1 (js_div maxWidth w) \<and>
         (\<exists>img. out ! i = SourcePage img \<and>
            img_width img = js_round (js_mul w (min 1 (js_div maxWidth w))) \<and>
            img_height img = js_round (js_mul h (min 1 (js_div maxWidth w))) \<and>
            (0 < w \<and> w \<le> maxWidth \<and> is_double w \<longrightarrow> img_width img = js_round w) \<and>
            (0 < w \<and> w \<le> maxWidth \<and> is_double w \<and> w = of_int k \<longrightarrow> img_width img = k) \<and>
            (w = 2000 \<and> maxWidth = 1400 \<longrightarrow>
               min 1 (js_div maxWidth w) = binary64 (7 / 10) \<and> img_width img = 1400))"
proof -
  define img where "img = page_image quality maxWidth (file_pages f ! i)"
  from compressViaCanvas_Inr [OF assms(1)]
  have all: "list_all (renders maxWidth) (file_pages f)"
    and out: "out = PDFDocument_save (map (page_image quality maxWidth) (file_pages f))"
    by simp_all
  from assms(2) have "map (page_image quality maxWidth) (file_pages f) \<noteq> []"
    by auto
  with out have "out = map SourcePage (map (page_image quality maxWidth) (file_pages f))"
    by (simp add: PDFDocument_save_nonempty)
  with assms(2) have oi: "out ! i = SourcePage img"
    by (simp add: img_def)
  from all assms(2) have "renders maxWidth (file_pages f ! i)"
    by (simp add: list_all_length)
  then have nz: "w \<noteq> 0"
    using assms(3) has_pixels_width_nonzero [of maxWidth "file_pages f ! i"]
    by (simp add: renders_def)
  then have sc: "render_scale maxWidth w = min 1 (js_div maxWidth w)"
    by (simp add: render_scale_def)
  from assms(3,4) sc
  have iw: "img_width img = js_round (js_mul w (min 1 (js_div maxWidth w)))"
    and ih: "img_height img = js_round (js_mul h (min 1 (js_div maxWidth w)))"
    by (simp_all add: img_def page_image_def)
  have keep: "img_width img = js_round w" if "0 < w" and "w \<le> maxWidth" and "is_double w"
  proof -
    from that(1,2) have "1 \<le> js_div maxWidth w" by (rule js_div_ge_one)
    then have "min 1 (js_div maxWidth w) = 1" by simp
    then show ?thesis unfolding iw using that(3) by (simp add: js_mul_one)
  qed
  have exact: "img_width img = k"
    if "0 < w" and "w \<le> maxWidth" and "is_double w" and "w = of_int k"
    using keep [OF that(1,2,3)] that(4) by (simp add: js_round_of_int)
  have wide: "min 1 (js_div maxWidth w) = binary64 (7 / 10) \<and> img_width img = 1400"
    if "w = 2000" and "maxWidth = 1400"
  proof -
    have "min 1 (js_div maxWidth w) = binary64 (7 / 10)"
      using that render_scale_wide sc by simp
    moreover have "js_round 1400 = 1400"
      using js_round_of_int [of 1400] by simp
    ultimately show ?thesis
      unfolding iw using that by (simp add: wide_page_width)
  qed
  from nz sc oi iw ih keep exact wide show ?thesis by blast
qed

theorem raster_scale_and_size_witness:
  "compressViaCanvas undisturbed three_pages (binary64 (6 / 10)) 1400 (compress_idle three_pages) =
     (fst (compressViaCanvas undisturbed three_pages (binary64 (6 / 10)) 1400
             (compress_idle three_pages)),
      Inr (PDFDocument_save (map (page_image (binary64 (6 / 10)) 1400) (file_pages three_pages)))) \<and>
   (1::nat) < length (file_pages three_pages) \<and>
   native_width (file_pages three_pages ! 0) = 2000 \<and>
   native_width (file_pages three_pages ! 1) = 612 \<and> is_double 612 \<and>
   (\<exists>img. PDFDocument_save (map (page_image (binary64 (6 / 10)) 1400) (file_pages three_pages)) ! 0 =
            SourcePage img \<and> img_width img = 1400) \<and>
   (\<exists>img. PDFDocument_save (map (page_image (binary64 (6 / 10)) 1400) (file_pages three_pages)) ! 1 =
            SourcePage img \<and> img_width img = 612)"
proof -
  let ?run = "compressViaCanvas undisturbed three_pages (binary64 (6 / 10)) 1400
                (compress_idle three_pages)"
  let ?out = "PDFDocument_save (map (page_image (binary64 (6 / 10)) 1400) (file_pages three_pages))"
  have b: "pdfjs_opens three_pages"
    by (simp add: three_pages_def pdf_of_def)
  have c: "list_all (renders 1400) (file_pages three_pages)"
    by (simp add: three_pages_def pdf_of_def renders_letter_page renders_wide_page)
  have "snd ?run = Inr ?out"
    using b c by (rule compressViaCanvas_result)
  then have run: "?run = (fst ?run, Inr ?out)"
    by (metis prod.collapse)
  have i0: "(0::nat) < length (file_pages three_pages)"
    and i1: "(1::nat) < length (file_pages three_pages)"
    by (simp_all add: three_pages_def pdf_of_def)
  have w0: "2000 = native_width (file_pages three_pages ! 0)"
    and h0: "1000 = native_height (file_pages three_pages ! 0)"
    by (simp_all add: three_pages_def pdf_of_def wide_page_def)
  have w1: "612 = native_width (file_pages three_pages ! 1)"
    and h1: "792 = native_height (file_pages three_pages ! 1)"
    by (simp_all add: three_pages_def pdf_of_def letter_page_def)
  have wide: "\<exists>img. ?out ! 0 = SourcePage img \<and> img_width img = 1400"
    using raster_scale_and_size [OF run i0 w0 h0] by auto
  have narrow: "\<exists>img. ?out ! 1 = SourcePage img \<and> img_width img = 612"
    using raster_scale_and_size [OF run i1 w1 h1, of 612] is_double_612 by auto
  show ?thesis
    using run i1 w0 w1 wide narrow is_double_612 by simp
qed

text \<open>
  Claim C6 (as amended). A well-formed \<open>N\<close>-page document whose pages all copy is split
  into exactly \<open>N\<close> documents, the \<open>k\<close>-th holding exactly the \<open>k\<close>-th source page.
  When every page also yields a canvas with pixels, rasterCompress publishes one
  document; for \<open>N \<ge> 1\<close> it has exactly \<open>N\<close> pages, the \<open>k\<close>-th drawn from the \<open>k\<close>-th
  source page, and for \<open>N = 0\<close> it has one page, the blank page that saving adds to a
  document without pages.
\<close>

theorem page_count_round_trip:
  assumes "s_file ss = Some f" and "c_file cs = Some f"
    and "parses f" and "pdfjs_opens f" and "list_all intact (file_pages f)"
  shows "(\<exists>results. s_splitPages (split ss) = Some results \<and>
            length results = length (file_pages f) \<and>
            (\<forall>k < length (file_pages f).
               url (results ! k) = [SourcePage (file_pages f ! k)] \<and> pageNum (results ! k) = k + 1)) \<and>
         (list_all (has_pixels 1400) (file_pages f) \<longrightarrow>
            (\<exists>out. c_resultUrl (compress resetAt cs) = Some out \<and>
               (file_pages f \<noteq> [] \<longrightarrow>
                  length out = length (file_pages f) \<and>
                  (\<forall>k < length (file_pages f).
                     \<exists>img. out ! k = SourcePage img \<and> img_source img = content (file_pages f ! k))) \<and>
               (file_pages f = [] \<longrightarrow> out = [BlankPage])))"
proof -
  have "s_splitPages (split ss) =
          Some (map (\<lambda>k. \<lparr>url = [SourcePage (file_pages f ! k)], pageNum = k + 1\<rparr>)
                  [0 ..< length (file_pages f)])"
    using assms(1,3,5) by (rule split_succeeds)
  then have split_part: "\<exists>results. s_splitPages (split ss) = Some results \<and>
            length results = length (file_pages f) \<and>
            (\<forall>k < length (file_pages f).
               url (results ! k) = [SourcePage (file_pages f ! k)] \<and> pageNum (results ! k) = k + 1)"
    by simp
  have "\<exists>out. c_resultUrl (compress resetAt cs) = Some out \<and>
               (file_pages f \<noteq> [] \<longrightarrow>
                  length out = length (file_pages f) \<and>
                  (\<forall>k < length (file_pages f).
                     \<exists>img. out ! k = SourcePage img \<and> img_source img = content (file_pages f ! k))) \<and>
               (file_pages f = [] \<longrightarrow> out = [BlankPage])"
    if "list_all (has_pixels 1400) (file_pages f)"
  proof -
    let ?out = "PDFDocument_save (map (page_image (binary64 (6 / 10)) 1400) (file_pages f))"
    from that assms(5) have "list_all (renders 1400) (file_pages f)"
      by (simp add: list_all_iff renders_def)
    from compress_succeeds(1) [OF assms(2,4) this, of resetAt]
    have r: "c_resultUrl (compress resetAt cs) = Some ?out" .
    have e: "?out = [BlankPage]" if "file_pages f = []"
      using that by (simp add: PDFDocument_save_empty)
    have n: "length ?out = length (file_pages f) \<and>
        (\<forall>k < length (file_pages f).
           \<exists>img. ?out ! k = SourcePage img \<and> img_source img = content (file_pages f ! k))"
      if "file_pages f \<noteq> []"
      using that by (simp add: PDFDocument_save_nonempty page_image_def)
    from r e n show ?thesis by blast
  qed
  with split_part show ?thesis by blast
qed

theorem page_count_round_trip_witness:
  "s_file (split_idle three_pages) = Some three_pages \<and>
   c_file (compress_idle three_pages) = Some three_pages \<and>
   parses three_pages \<and> pdfjs_opens three_pages \<and>
   list_all intact (file_pages three_pages) \<and>
   list_all (has_pixels 1400) (file_pages three_pages) \<and>
   length (file_pages three_pages) = 3 \<and>
   map_option length (s_splitPages (split (split_idle three_pages))) = Some 3 \<and>
   map_option length (c_resultUrl (compress undisturbed (compress_idle three_pages))) = Some 3 \<and>
   file_pages empty_pdf = [] \<and>
   map_option length (s_splitPages (split (split_idle empty_pdf))) = Some 0 \<and>
   c_resultUrl (compress undisturbed (compress_idle empty_pdf)) = Some [BlankPage]"
proof -
  have a: "s_file (split_idle three_pages) = Some three_pages"
    by (simp add: split_idle_def)
  have b: "c_file (compress_idle three_pages) = Some three_pages"
    by (simp add: compress_idle_def)
  have c: "parses three_pages" and d: "pdfjs_opens three_pages"
    by (simp_all add: three_pages_def pdf_of_def)
  have r: "list_all (renders 1400) (file_pages three_pages)"
    by (simp add: three_pages_def pdf_of_def renders_letter_page renders_wide_page)
  then have e: "list_all intact (file_pages three_pages)"
    and p: "list_all (has_pixels 1400) (file_pages three_pages)"
    by (simp_all add: list_all_iff renders_def)
  have n: "length (file_pages three_pages) = 3"
    by (simp add: three_pages_def pdf_of_def)
  then have ne: "file_pages three_pages \<noteq> []" by auto
  from page_count_round_trip [OF a b c d e, of undisturbed] p n ne
  have three: "map_option length (s_splitPages (split (split_idle three_pages))) = Some 3 \<and>
        map_option length (c_resultUrl (compress undisturbed (compress_idle three_pages))) = Some 3"
    by auto
  have a0: "s_file (split_idle empty_pdf) = Some empty_pdf"
    by (simp add: split_idle_def)
  have b0: "c_file (compress_idle empty_pdf) = Some empty_pdf"
    by (simp add: compress_idle_def)
  have c0: "parses empty_pdf" and d0: "pdfjs_opens empty_pdf"
    and n0: "file_pages empty_pdf = []"
    by (simp_all add: empty_pdf_def pdf_of_def)
  from page_count_round_trip [OF a0 b0 c0 d0, of undisturbed] n0
  have none: "map_option length (s_splitPages (split (split_idle empty_pdf))) = Some 0 \<and>
        c_resultUrl (compress undisturbed (compress_idle empty_pdf)) = Some [BlankPage]"
    by auto
  from a b c d e p n three n0 none show ?thesis by simp
qed

text \<open>
  The claim as the specification words it fails for rasterCompress at \<open>N = 0\<close>: a
  well-formed document without pages is processed without error, and the published
  document has one page.
\<close>

theorem page_count_counterexample:
  "parses empty_pdf \<and> pdfjs_opens empty_pdf \<and> length (file_pages empty_pdf) = 0 \<and>
   c_error (compress undisturbed (compress_idle empty_pdf)) = [] \<and>
   c_progress (compress undisturbed (compress_idle empty_pdf)) = Completed \<and>
   map_option length (c_resultUrl (compress undisturbed (compress_idle empty_pdf))) = Some 1"
proof -
  have b0: "c_file (compress_idle empty_pdf) = Some empty_pdf"
    by (simp add: compress_idle_def)
  have c0: "parses empty_pdf" and d0: "pdfjs_opens empty_pdf"
    and n0: "file_pages empty_pdf = []"
    by (simp_all add: empty_pdf_def pdf_of_def)
  have r0: "list_all (renders 1400) (file_pages empty_pdf)"
    by (simp add: n0)
  from compress_succeeds [OF b0 d0 r0, of undisturbed] c0 d0 n0
  show ?thesis by (simp add: PDFDocument_save_empty)
qed

subsection \<open>Merge\<close>

lemma merge_items_ok:
  "\<forall>it\<in>set its. \<exists>pgs. PDFDocument_load False (item_file it) = Inr pgs \<and> list_all intact pgs \<Longrightarrow>
   snd (merge_items its i n mergedDoc s) =
     Inr (mergedDoc @ concat (map (\<lambda>it. file_pages (item_file it)) its))"
proof (induction its arbitrary: i mergedDoc s)
  case Nil
  show ?case by simp
next
  case (Cons it its)
  from Cons.prems obtain pgs
    where l: "PDFDocument_load False (item_file it) = Inr pgs" and a: "list_all intact pgs"
    by auto
  from l have p: "pgs = file_pages (item_file it)"
    by (simp add: PDFDocument_load_def split: if_splits)
  from Cons.prems have "\<forall>it\<in>set its. \<exists>pgs. PDFDocument_load False (item_file it) = Inr pgs \<and> list_all intact pgs"
    by simp
  from Cons.IH [OF this] l a p show ?case
    by (simp add: Let_def copyPages_all)
qed

lemma merge_items_fails:
  "\<exists>it\<in>set its. \<exists>e. PDFDocument_load False (item_file it) = Inl e \<Longrightarrow>
   \<exists>e. snd (merge_items its i n mergedDoc s) = Inl e"
proof (induction its arbitrary: i mergedDoc s)
  case Nil
  then show ?case by simp
next
  case (Cons it its)
  show ?case
  proof (cases "PDFDocument_load False (item_file it)")
    case (Inl e)
    then show ?thesis by (simp add: Let_def)
  next
    case (Inr pdf)
    with Cons.prems have rest: "\<exists>it\<in>set its. \<exists>e. PDFDocument_load False (item_file it) = Inl e"
      by auto
    show ?thesis
    proof (cases "copyPages pdf (getPageIndices pdf)")
      case (Inl e)
      with Inr show ?thesis by (simp add: Let_def)
    next
      case copied: (Inr copied)
      from Cons.IH [OF rest] Inr copied show ?thesis by (simp add: Let_def)
    qed
  qed
qed

lemma merge_items_state:
  "m_mergedUrl (fst (merge_items its i n mergedDoc s)) = m_mergedUrl s"
  by (induction its arbitrary: i mergedDoc s) (simp_all add: Let_def split: sum.splits)

lemma mergePDFs_alt:
  "mergePDFs s0 =
     (let s = s0\<lparr>m_error := [], m_mergedUrl := None\<rparr>
      in if length (m_items s) < 2
         then s\<lparr>m_error := ''Select at least two PDF files to merge.''\<rparr>
         else if sum_list (map item_size (m_items s)) > MAX_SIZE_BYTES
         then s\<lparr>m_error := ''Total file size too large. Try fewer or smaller PDFs.''\<rparr>
         else
           (let run = merge_items (m_items s) 0 (length (m_items s)) []
                        (s\<lparr>m_isProcessing := True, m_progress := CreatingNewDocument\<rparr>)
            in (case snd run of
                  Inl e \<Rightarrow> (fst run)\<lparr>m_error := ''Failed to merge PDFs. Try re-uploading the files.''\<rparr>
                | Inr mergedDoc \<Rightarrow>
                    (fst run)\<lparr>m_progress := SavingMergedPDF,
                              m_mergedUrl := Some (PDFDocument_save mergedDoc),
                              m_progress := Done\<rparr>)
               \<lparr>m_isProcessing := False\<rparr>))"
  by (simp add: mergePDFs_def Let_def split: prod.splits sum.splits)

lemma mergePDFs_succeeds:
  assumes "\<forall>it\<in>set (m_items s). \<exists>pgs. PDFDocument_load False (item_file it) = Inr pgs \<and> list_all intact pgs"
    and "2 \<le> length (m_items s)" and "sum_list (map item_size (m_items s)) \<le> MAX_SIZE_BYTES"
  shows "m_mergedUrl (mergePDFs s) =
           Some (PDFDocument_save (concat (map (\<lambda>it. file_pages (item_file it)) (m_items s))))"
proof -
  have "snd (merge_items (m_items s) 0 (length (m_items s)) []
          (s\<lparr>m_error := [], m_mergedUrl := None, m_isProcessing := True,
             m_progress := CreatingNewDocument\<rparr>)) =
        Inr ([] @ concat (map (\<lambda>it. file_pages (item_file it)) (m_items s)))"
    using assms(1) by (rule merge_items_ok)
  with assms(2,3) show ?thesis
    by (simp add: mergePDFs_alt Let_def)
qed

lemma mergePDFs_fails:
  assumes "it \<in> set (m_items s)" and "PDFDocument_load False (item_file it) = Inl e"
  shows "m_mergedUrl (mergePDFs s) = None"
    and "m_error (mergePDFs s) \<noteq> []"
    and "2 \<le> length (m_items s) \<Longrightarrow> sum_list (map item_size (m_items s)) \<le> MAX_SIZE_BYTES \<Longrightarrow>
         m_error (mergePDFs s) = ''Failed to merge PDFs. Try re-uploading the files.''"
proof -
  let ?s1 = "s\<lparr>m_error := [], m_mergedUrl := None, m_isProcessing := True,
               m_progress := CreatingNewDocument\<rparr>"
  let ?run = "merge_items (m_items s) 0 (length (m_items s)) [] ?s1"
  have "\<exists>it\<in>set (m_items s). \<exists>e. PDFDocument_load False (item_file it) = Inl e"
    using assms by blast
  from merge_items_fails [OF this]
  obtain e' where r: "snd ?run = Inl e'" by blast
  have u: "m_mergedUrl (fst ?run) = None"
    by (simp add: merge_items_state)
  show "m_mergedUrl (mergePDFs s) = None"
    using r u by (simp add: mergePDFs_alt Let_def)
  show "m_error (mergePDFs s) \<noteq> []"
    using r by (simp add: mergePDFs_alt Let_def)
  show "m_error (mergePDFs s) = ''Failed to merge PDFs. Try re-uploading the files.''"
    if "2 \<le> length (m_items s)" and "sum_list (map item_size (m_items s)) \<le> MAX_SIZE_BYTES"
    using r that by (simp add: mergePDFs_alt Let_def)
qed

text \<open>
  Claim C4. Merging document \<open>A\<close> followed by document \<open>B\<close>, in the order of the list,
  publishes one document whose first pages are the pages of \<open>A\<close> in their order and
  whose next pages are the pages of \<open>B\<close> in theirs. Unless both documents are without
  pages, the published document has no other page.
\<close>

theorem merge_preserves_order:
  assumes "m_items s = [A, B]"
    and "PDFDocument_load False (item_file A) = Inr pa"
    and "PDFDocument_load False (item_file B) = Inr pb"
    and "list_all intact pa" and "list_all intact pb"
    and "item_size A + item_size B \<le> MAX_SIZE_BYTES"
  shows "\<exists>out. m_mergedUrl (mergePDFs s) = Some out \<and> out = PDFDocument_save (pa @ pb) \<and>
           take (length pa) out = map SourcePage pa \<and>
           take (length pb) (drop (length pa) out) = map SourcePage pb \<and>
           (pa @ pb \<noteq> [] \<longrightarrow>
              out = map SourcePage pa @ map SourcePage pb \<and>
              length out = length pa + length pb)"
proof -
  have pa: "pa = file_pages (item_file A)" and pb: "pb = file_pages (item_file B)"
    using assms(2,3) by (simp_all add: PDFDocument_load_def split: if_splits)
  have "\<forall>it\<in>set (m_items s). \<exists>pgs. PDFDocument_load False (item_file it) = Inr pgs \<and> list_all intact pgs"
    using assms(1-5) by simp
  from mergePDFs_succeeds [OF this] assms(1,6) pa pb
  have r: "m_mergedUrl (mergePDFs s) = Some (PDFDocument_save (pa @ pb))" by simp
  have "take (length pa) (PDFDocument_save (pa @ pb)) = map SourcePage pa \<and>
        take (length pb) (drop (length pa) (PDFDocument_save (pa @ pb))) = map SourcePage pb \<and>
        (pa @ pb \<noteq> [] \<longrightarrow>
           PDFDocument_save (pa @ pb) = map SourcePage pa @ map SourcePage pb \<and>
           length (PDFDocument_save (pa @ pb)) = length pa + length pb)"
  proof (cases "pa @ pb = []")
    case True
    then show ?thesis by simp
  next
    case False
    then have "PDFDocument_save (pa @ pb) = map SourcePage pa @ map SourcePage pb"
      by (simp add: PDFDocument_save_nonempty)
    then show ?thesis by simp
  qed
  with r show ?thesis by simp
qed

theorem merge_preserves_order_witness:
  "m_items (merge_idle [item_of two_pages, item_of three_pages]) = [item_of two_pages, item_of three_pages] \<and>
   PDFDocument_load False (item_file (item_of two_pages)) = Inr (file_pages two_pages) \<and>
   PDFDocument_load False (item_file (item_of three_pages)) = Inr (file_pages three_pages) \<and>
   list_all intact (file_pages two_pages) \<and> list_all intact (file_pages three_pages) \<and>
   item_size (item_of two_pages) + item_size (item_of three_pages) \<le> MAX_SIZE_BYTES \<and>
   file_pages two_pages @ file_pages three_pages \<noteq> [] \<and>
   m_mergedUrl (mergePDFs (merge_idle [item_of two_pages, item_of three_pages])) =
     Some [SourcePage (letter_page 7 True), SourcePage (letter_page 8 True),
           SourcePage (wide_page 1), SourcePage (letter_page 2 True),
           SourcePage (letter_page 3 True)]"
proof -
  have a: "m_items (merge_idle [item_of two_pages, item_of three_pages]) =
             [item_of two_pages, item_of three_pages]"
    by (simp add: merge_idle_def)
  have b: "PDFDocument_load False (item_file (item_of two_pages)) = Inr (file_pages two_pages)"
    by (simp add: PDFDocument_load_def item_of_def two_pages_def pdf_of_def)
  have c: "PDFDocument_load False (item_file (item_of three_pages)) = Inr (file_pages three_pages)"
    by (simp add: PDFDocument_load_def item_of_def three_pages_def pdf_of_def)
  have d: "list_all intact (file_pages two_pages)"
    by (simp add: two_pages_def pdf_of_def letter_page_def)
  have e: "list_all intact (file_pages three_pages)"
    by (simp add: three_pages_def pdf_of_def letter_page_def wide_page_def)
  have f: "item_size (item_of two_pages) + item_size (item_of three_pages) \<le> MAX_SIZE_BYTES"
    by (simp add: item_of_def two_pages_def three_pages_def pdf_of_def MAX_SIZE_BYTES_def)
  have g: "file_pages two_pages = [letter_page 7 True, letter_page 8 True]"
    and h: "file_pages three_pages = [wide_page 1, letter_page 2 True, letter_page 3 True]"
    by (simp_all add: two_pages_def three_pages_def pdf_of_def)
  then have ne: "file_pages two_pages @ file_pages three_pages \<noteq> []" by simp
  from merge_preserves_order [OF a b c d e f] ne
  have "m_mergedUrl (mergePDFs (merge_idle [item_of two_pages, item_of three_pages])) =
      Some (map SourcePage (file_pages two_pages) @ map SourcePage (file_pages three_pages))"
    by auto
  with a b c d e f ne show ?thesis by (simp add: g h)
qed

text \<open>
  Claim C5. When any input document of a merge fails to decode, no merged document is
  published and an error is reported: the documents copied before the failure are lost
  with \<open>mergedDoc\<close>. When the run got past the two guards, the error is the merge
  failure.
\<close>

theorem merge_aborts_on_decode_failure:
  assumes "it \<in> set (m_items s)" and "PDFDocument_load False (item_file it) = Inl e"
  shows "m_mergedUrl (mergePDFs s) = None \<and> m_error (mergePDFs s) \<noteq> [] \<and>
         (2 \<le> length (m_items s) \<and> sum_list (map item_size (m_items s)) \<le> MAX_SIZE_BYTES \<longrightarrow>
            m_error (mergePDFs s) = ''Failed to merge PDFs. Try re-uploading the files.'')"
  using mergePDFs_fails [OF assms] by blast

theorem merge_aborts_on_decode_failure_witness:
  "item_of unreadable_pdf \<in> set (m_items (merge_idle [item_of two_pages, item_of unreadable_pdf])) \<and>
   PDFDocument_load False (item_file (item_of unreadable_pdf)) = Inl ParseError \<and>
   2 \<le> length (m_items (merge_idle [item_of two_pages, item_of unreadable_pdf])) \<and>
   sum_list (map item_size (m_items (merge_idle [item_of two_pages, item_of unreadable_pdf])))
     \<le> MAX_SIZE_BYTES \<and>
   m_mergedUrl (mergePDFs (merge_idle [item_of two_pages, item_of unreadable_pdf])) = None \<and>
   m_error (mergePDFs (merge_idle [item_of two_pages, item_of unreadable_pdf])) =
     ''Failed to merge PDFs. Try re-uploading the files.''"
proof -
  let ?s = "merge_idle [item_of two_pages, item_of unreadable_pdf]"
  have a: "item_of unreadable_pdf \<in> set (m_items ?s)"
    by (simp add: merge_idle_def)
  have b: "PDFDocument_load False (item_file (item_of unreadable_pdf)) = Inl ParseError"
    by (simp add: PDFDocument_load_def item_of_def unreadable_pdf_def pdf_of_def)
  have c: "2 \<le> length (m_items ?s)"
    by (simp add: merge_idle_def)
  have d: "sum_list (map item_size (m_items ?s)) \<le> MAX_SIZE_BYTES"
    by (simp add: merge_idle_def item_of_def two_pages_def unreadable_pdf_def pdf_of_def
        MAX_SIZE_BYTES_def)
  show ?thesis
    using merge_aborts_on_decode_failure [OF a b] a b c d by simp
qed

text \<open>
  Claim C8. The page-count preview of the merge component, split and the compress
  preview open a file with \<^verbatim>\<open>ignoreEncryption: true\<close>; \<open>mergePDFs\<close> itself opens it
  without the option. An encrypted document that the relaxed load opens is therefore
  accepted by split and rejected by merge.
\<close>

theorem merge_rejects_encrypted_document:
  "PDFDocument_load True encrypted_pdf = Inr (file_pages encrypted_pdf) \<and>
   s_splitPages (split (split_idle encrypted_pdf)) =
     Some [\<lparr>url = [SourcePage (letter_page 9 True)], pageNum = 1\<rparr>] \<and>
   PDFDocument_load False encrypted_pdf = Inl EncryptedPDFError \<and>
   m_mergedUrl (mergePDFs (merge_idle [item_of two_pages, item_of encrypted_pdf])) = None \<and>
   m_error (mergePDFs (merge_idle [item_of two_pages, item_of encrypted_pdf])) =
     ''Failed to merge PDFs. Try re-uploading the files.''"
proof -
  let ?s = "merge_idle [item_of two_pages, item_of encrypted_pdf]"
  have l: "PDFDocument_load True encrypted_pdf = Inr (file_pages encrypted_pdf)"
    by (simp add: PDFDocument_load_def encrypted_pdf_def pdf_of_def)
  have sp: "s_splitPages (split (split_idle encrypted_pdf)) =
      Some [\<lparr>url = [SourcePage (letter_page 9 True)], pageNum = 1\<rparr>]"
    using split_succeeds [of "split_idle encrypted_pdf" encrypted_pdf]
    by (simp add: split_idle_def encrypted_pdf_def pdf_of_def letter_page_def)
  have a: "item_of encrypted_pdf \<in> set (m_items ?s)"
    by (simp add: merge_idle_def)
  have b: "PDFDocument_load False (item_file (item_of encrypted_pdf)) = Inl EncryptedPDFError"
    by (simp add: PDFDocument_load_def item_of_def encrypted_pdf_def pdf_of_def)
  then have b': "PDFDocument_load False encrypted_pdf = Inl EncryptedPDFError"
    by (simp add: item_of_def)
  have c: "2 \<le> length (m_items ?s)"
    by (simp add: merge_idle_def)
  have d: "sum_list (map item_size (m_items ?s)) \<le> MAX_SIZE_BYTES"
    by (simp add: merge_idle_def item_of_def two_pages_def encrypted_pdf_def pdf_of_def
        MAX_SIZE_BYTES_def)
  from mergePDFs_fails(1) [OF a b] mergePDFs_fails(3) [OF a b c d] l sp b'
  show ?thesis by simp
qed

subsection \<open>Image reducer\<close>

lemma js_round_close: "\<bar>of_int (js_round x) - x\<bar> \<le> 1 / 2"
proof -
  have "of_int \<lfloor>x + 1 / 2\<rfloor> \<le> x + 1 / 2" and "x + 1 / 2 < of_int \<lfloor>x + 1 / 2\<rfloor> + 1"
    by linarith+
  then show ?thesis
    unfolding js_round_def by linarith
qed

lemma js_round_nonpos: "x \<le> 0 \<Longrightarrow> js_round x \<le> 0"
  using js_round_mono [of x 0] by (simp add: js_round_def)

lemma pixels_int: "pixels n = of_int (int (unat n))"
  by (simp add: pixels_def)

lemma pixels_nonneg: "0 \<le> pixels n"
  unfolding pixels_def by (rule of_nat_0_le_iff)

lemma pixels_pos: "0 < unat n \<Longrightarrow> 0 < pixels n"
  unfolding pixels_def by (simp only: of_nat_0_less_iff)

lemma pixels_bounds: "0 \<le> int (unat n)" "int (unat (n :: 32 word)) < 2 ^ 53"
proof -
  show "0 \<le> int (unat n)" by simp
  have "unat n < 2 ^ 32" using unsigned_less [of n] by simp
  then have "int (unat n) < 2 ^ 32" by (simp only: of_nat_less_numeral_power_cancel_iff)
  also have "(2::int) ^ 32 < 2 ^ 53" by simp
  finally show "int (unat n) < 2 ^ 53" .
qed

lemma createImageBitmap_Inr:
  "createImageBitmap f = Inr bmp \<Longrightarrow> 0 < unat (bmp_width bmp) \<and> 0 < unat (bmp_height bmp)"
  by (auto simp: createImageBitmap_def word_greater_zero_iff unat_gt_0 split: if_splits)

lemma target_size_le:
  "fst (target_size s bmp) \<le> pixels (bmp_width bmp) \<and>
   snd (target_size s bmp) \<le> pixels (bmp_height bmp)"
  by (simp add: target_size_def Let_def split: prod.splits)

lemma reduce_scale_eq:
  "reduce_scale s bmp =
     min (js_div (fst (target_size s bmp)) (pixels (bmp_width bmp)))
         (js_div (snd (target_size s bmp)) (pixels (bmp_height bmp)))"
  by (simp add: reduce_scale_def split: prod.splits)

lemma reduce_scale_le_1:
  assumes "0 < unat (bmp_width bmp)"
  shows "reduce_scale s bmp \<le> 1"
proof -
  have "0 < pixels (bmp_width bmp)" using assms by (rule pixels_pos)
  then have "fst (target_size s bmp) / pixels (bmp_width bmp) \<le> of_int 1"
    using target_size_le [of s bmp] by (simp add: divide_le_eq)
  then have "binary64 (fst (target_size s bmp) / pixels (bmp_width bmp)) \<le> of_int 1"
    by (rule binary64_le_int) simp_all
  then show ?thesis
    unfolding reduce_scale_eq js_div_def by simp
qed

lemma clamped_round_bounds:
  fixes k :: rat and n :: "32 word"
  assumes "0 < unat n" and "k \<le> 1"
  shows "1 \<le> max 1 (js_round (js_mul (pixels n) k))"
    and "max 1 (js_round (js_mul (pixels n) k)) \<le> int (unat n)"
proof -
  show "1 \<le> max 1 (js_round (js_mul (pixels n) k))" by simp
  have "pixels n * k \<le> pixels n * 1"
    using assms(2) pixels_nonneg [of n] by (intro mult_left_mono)
  then have "pixels n * k \<le> of_int (int (unat n))"
    by (simp add: pixels_int)
  then have "binary64 (pixels n * k) \<le> of_int (int (unat n))"
    using pixels_bounds [of n] by (rule binary64_le_int)
  then have "js_round (js_mul (pixels n) k) \<le> js_round (of_int (int (unat n)))"
    unfolding js_mul_def by (rule js_round_mono)
  then have "js_round (js_mul (pixels n) k) \<le> int (unat n)"
    by (simp only: js_round_of_int)
  moreover have "1 \<le> int (unat n)"
    using assms(1) by linarith
  ultimately show "max 1 (js_round (js_mul (pixels n) k)) \<le> int (unat n)"
    by (intro max.boundedI)
qed

lemma clamped_round_close:
  fixes k :: rat
  assumes "0 \<le> k"
  shows "\<bar>of_int (max 1 (js_round (js_mul (pixels n) k))) - js_mul (pixels n) k\<bar> \<le> 1"
proof -
  let ?x = "js_mul (pixels n) k"
  have "0 \<le> pixels n * k" using assms pixels_nonneg [of n] by simp
  then have x: "0 \<le> ?x" unfolding js_mul_def by (rule binary64_nonneg)
  have c: "\<bar>of_int (js_round ?x) - ?x\<bar> \<le> 1 / 2" by (rule js_round_close)
  show ?thesis
  proof (cases "1 \<le> js_round ?x")
    case True
    then have "max 1 (js_round ?x) = js_round ?x" by simp
    with c show ?thesis by simp
  next
    case False
    then have "js_round ?x \<le> 0" by simp
    then have "(of_int (js_round ?x) :: rat) \<le> 0" by simp
    with c x have "?x \<le> 1 / 2" by linarith
    moreover from False have "max 1 (js_round ?x) = 1" by simp
    ultimately show ?thesis using x by simp
  qed
qed

lemma output_size_nonpos_scale:
  assumes "reduce_scale s bmp \<le> 0"
  shows "output_size s bmp = (1, 1)"
proof -
  have nonpos: "js_round (js_mul (pixels n) (reduce_scale s bmp)) \<le> 0" for n
  proof -
    have "pixels n * reduce_scale s bmp \<le> 0"
      using assms pixels_nonneg [of n] by (rule mult_nonneg_nonpos [rotated])
    then have "js_mul (pixels n) (reduce_scale s bmp) \<le> 0"
      unfolding js_mul_def by (rule binary64_nonpos)
    then show ?thesis by (rule js_round_nonpos)
  qed
  have "max 1 (js_round (js_mul (pixels n) (reduce_scale s bmp))) = 1" for n
    using nonpos [of n] by simp
  then show ?thesis by (simp add: output_size_def)
qed

lemma handleUpload_succeeds:
  assumes "i_selectedFile s = Some f" and "createImageBitmap f = Inr bmp" and "blob_created f"
  shows "i_success (handleUpload s)"
    and "map_option out_width (i_resizedImage (handleUpload s)) = Some (fst (output_size s bmp))"
    and "map_option out_height (i_resizedImage (handleUpload s)) = Some (snd (output_size s bmp))"
proof -
  have "requested_size (s\<lparr>i_loading := True, i_error := []\<rparr>) = requested_size s"
    by (cases "i_config s") (simp_all add: requested_size_def)
  then have "target_size (s\<lparr>i_loading := True, i_error := []\<rparr>) bmp = target_size s bmp"
    by (simp add: target_size_def)
  then have "reduce_scale (s\<lparr>i_loading := True, i_error := []\<rparr>) bmp = reduce_scale s bmp"
    by (simp add: reduce_scale_def)
  then have "output_size (s\<lparr>i_loading := True, i_error := []\<rparr>) bmp = output_size s bmp"
    by (simp add: output_size_def)
  with assms show "i_success (handleUpload s)"
    and "map_option out_width (i_resizedImage (handleUpload s)) = Some (fst (output_size s bmp))"
    and "map_option out_height (i_resizedImage (handleUpload s)) = Some (snd (output_size s bmp))"
    by (simp_all add: handleUpload_def Let_def split: prod.splits)
qed

text \<open>
  Claim C10 (as amended). For every image that the reducer processes, the output is at
  least one pixel and at most the source bitmap in each direction; the target size is
  clamped to the source; and both output sides come from the source sides by one and the
  same factor, the smaller of the width and height ratios (at most 1), rounded and raised
  to 1. When that factor is not negative, each output side is within one pixel of the
  source side times the factor, which is the sense in which the aspect ratio is kept.
\<close>

theorem reduced_image_within_source:
  assumes "i_selectedFile s = Some f" and "createImageBitmap f = Inr bmp" and "blob_created f"
  shows "\<exists>r. i_resizedImage (handleUpload s) = Some r \<and> i_success (handleUpload s) \<and>
           1 \<le> out_width r \<and> out_width r \<le> int (unat (bmp_width bmp)) \<and>
           1 \<le> out_height r \<and> out_height r \<le> int (unat (bmp_height bmp)) \<and>
           fst (target_size s bmp) \<le> pixels (bmp_width bmp) \<and>
           snd (target_size s bmp) \<le> pixels (bmp_height bmp) \<and>
           reduce_scale s bmp =
             min (js_div (fst (target_size s bmp)) (pixels (bmp_width bmp)))
                 (js_div (snd (target_size s bmp)) (pixels (bmp_height bmp))) \<and>
           reduce_scale s bmp \<le> 1 \<and>
           out_width r = max 1 (js_round (js_mul (pixels (bmp_width bmp)) (reduce_scale s bmp))) \<and>
           out_height r = max 1 (js_round (js_mul (pixels (bmp_height bmp)) (reduce_scale s bmp))) \<and>
           (0 \<le> reduce_scale s bmp \<longrightarrow>
              \<bar>of_int (out_width r) - js_mul (pixels (bmp_width bmp)) (reduce_scale s bmp)\<bar> \<le> 1 \<and>
              \<bar>of_int (out_height r) - js_mul (pixels (bmp_height bmp)) (reduce_scale s bmp)\<bar> \<le> 1)"
proof -
  let ?k = "reduce_scale s bmp"
  from createImageBitmap_Inr [OF assms(2)]
  have bw: "0 < unat (bmp_width bmp)" and bh: "0 < unat (bmp_height bmp)" by simp_all
  have k1: "?k \<le> 1" using bw by (rule reduce_scale_le_1)
  from handleUpload_succeeds [OF assms]
  obtain r where r: "i_resizedImage (handleUpload s) = Some r"
    and ok: "i_success (handleUpload s)"
    and w: "out_width r = fst (output_size s bmp)"
    and h: "out_height r = snd (output_size s bmp)"
    by auto
  have w': "out_width r = max 1 (js_round (js_mul (pixels (bmp_width bmp)) ?k))"
    and h': "out_height r = max 1 (js_round (js_mul (pixels (bmp_height bmp)) ?k))"
    using w h by (simp_all add: output_size_def Let_def)
  have "1 \<le> out_width r" and "out_width r \<le> int (unat (bmp_width bmp))"
    unfolding w' using clamped_round_bounds [OF bw k1] by simp_all
  moreover have "1 \<le> out_height r" and "out_height r \<le> int (unat (bmp_height bmp))"
    unfolding h' using clamped_round_bounds [OF bh k1] by simp_all
  moreover have "\<bar>of_int (out_width r) - js_mul (pixels (bmp_width bmp)) ?k\<bar> \<le> 1 \<and>
      \<bar>of_int (out_height r) - js_mul (pixels (bmp_height bmp)) ?k\<bar> \<le> 1" if "0 \<le> ?k"
    unfolding w' h' using clamped_round_close [OF that] by simp
  ultimately show ?thesis
    using r ok w' h' k1 target_size_le [of s bmp] reduce_scale_eq [of s bmp] by blast
qed

lemma parseInt_300: "parseInt ''300'' = Some 300"
  by (simp add: parseInt_def js_whitespace_def is_digit_def digits_value_def)

lemma parseInt_400: "parseInt ''400'' = Some 400"
  by (simp add: parseInt_def js_whitespace_def is_digit_def digits_value_def)

lemma parseInt_minus_5: "parseInt ''-5'' = Some (- 5)"
  by (simp add: parseInt_def js_whitespace_def is_digit_def digits_value_def)

lemma binary64_300: "binary64 300 = 300"
  by code_simp

lemma binary64_400: "binary64 400 = 400"
  by code_simp

lemma binary64_minus_5: "binary64 (- 5) = - 5"
  by code_simp

lemma photo_bitmap: "createImageBitmap photo = Inr \<lparr>bmp_width = 1200, bmp_height = 900\<rparr>"
  by (simp add: createImageBitmap_def photo_def)

lemma reducer_example_target:
  "target_size reducer_idle \<lparr>bmp_width = 1200, bmp_height = 900\<rparr> = (300, 400)"
  by (simp add: target_size_def requested_size_def reducer_idle_def parseInt_300 parseInt_400
      binary64_300 binary64_400 pixels_def)

lemma reducer_example_ratios: "min (js_div 300 1200) (js_div 400 900) = 1 / 4"
  by code_simp

lemma reducer_example_scale:
  "reduce_scale reducer_idle \<lparr>bmp_width = 1200, bmp_height = 900\<rparr> = 1 / 4"
  by (simp add: reduce_scale_def reducer_example_target pixels_def reducer_example_ratios)

lemma reducer_example_products: "js_mul 1200 (1 / 4) = 300" "js_mul 900 (1 / 4) = 225"
  by code_simp+

lemma reducer_example_size:
  "output_size reducer_idle \<lparr>bmp_width = 1200, bmp_height = 900\<rparr> = (300, 225)"
  using js_round_of_int [of 300] js_round_of_int [of 225]
  by (simp add: output_size_def reducer_example_scale pixels_def reducer_example_products)

theorem reduced_image_within_source_witness:
  "i_selectedFile reducer_idle = Some photo \<and>
   createImageBitmap photo = Inr \<lparr>bmp_width = 1200, bmp_height = 900\<rparr> \<and>
   blob_created photo \<and>
   0 \<le> reduce_scale reducer_idle \<lparr>bmp_width = 1200, bmp_height = 900\<rparr> \<and>
   output_size reducer_idle \<lparr>bmp_width = 1200, bmp_height = 900\<rparr> = (300, 225) \<and>
   (\<exists>r. i_resizedImage (handleUpload reducer_idle) = Some r \<and>
        1 \<le> out_width r \<and> out_width r \<le> 1200 \<and> 1 \<le> out_height r \<and> out_height r \<le> 900 \<and>
        \<bar>of_int (out_width r) - js_mul 1200 (1 / 4)\<bar> \<le> 1 \<and>
        \<bar>of_int (out_height r) - js_mul 900 (1 / 4)\<bar> \<le> 1)"
proof -
  let ?bmp = "\<lparr>bmp_width = 1200, bmp_height = 900\<rparr>"
  have a: "i_selectedFile reducer_idle = Some photo"
    by (simp add: reducer_idle_def)
  have b: "createImageBitmap photo = Inr ?bmp"
    by (rule photo_bitmap)
  have c: "blob_created photo"
    by (simp add: photo_def)
  have k: "reduce_scale reducer_idle ?bmp = 1 / 4"
    by (rule reducer_example_scale)
  have p: "pixels 1200 = 1200" "pixels 900 = 900"
    by (simp_all add: pixels_def)
  from reduced_image_within_source [OF a b c]
  obtain r where "i_resizedImage (handleUpload reducer_idle) = Some r"
    and "1 \<le> out_width r" and "out_width r \<le> int (unat (bmp_width ?bmp))"
    and "1 \<le> out_height r" and "out_height r \<le> int (unat (bmp_height ?bmp))"
    and "0 \<le> reduce_scale reducer_idle ?bmp \<longrightarrow>
       \<bar>of_int (out_width r) - js_mul (pixels (bmp_width ?bmp)) (reduce_scale reducer_idle ?bmp)\<bar> \<le> 1 \<and>
       \<bar>of_int (out_height r) - js_mul (pixels (bmp_height ?bmp)) (reduce_scale reducer_idle ?bmp)\<bar> \<le> 1"
    by blast
  then show ?thesis
    using a b c reducer_example_size by (auto simp: k p)
qed

text \<open>
  The claim as the specification words it fails in its aspect-ratio part: the width
  field accepts \<^verbatim>\<open>-5\<close>, the common factor is then negative, and a bitmap of 1200 by
  900 pixels is reduced, with success, to 1 by 1.
\<close>

theorem aspect_ratio_counterexample:
  "createImageBitmap photo = Inr \<lparr>bmp_width = 1200, bmp_height = 900\<rparr> \<and>
   i_success (handleUpload reducer_negative_width) \<and>
   map_option out_width (i_resizedImage (handleUpload reducer_negative_width)) = Some 1 \<and>
   map_option out_height (i_resizedImage (handleUpload reducer_negative_width)) = Some 1"
proof -
  let ?bmp = "\<lparr>bmp_width = 1200, bmp_height = 900\<rparr>"
  have a: "i_selectedFile reducer_negative_width = Some photo"
    by (simp add: reducer_negative_width_def reducer_idle_def)
  have c: "blob_created photo"
    by (simp add: photo_def)
  have t: "fst (target_size reducer_negative_width ?bmp) = - 5"
    by (simp add: target_size_def requested_size_def reducer_negative_width_def reducer_idle_def
        parseInt_minus_5 parseInt_400 binary64_minus_5 binary64_400 pixels_def)
  have "binary64 (- 5 / 1200) \<le> 0"
    by (rule binary64_nonpos) simp
  then have "reduce_scale reducer_negative_width ?bmp \<le> 0"
    unfolding reduce_scale_eq t by (simp add: js_div_def pixels_def min_le_iff_disj)
  then have "output_size reducer_negative_width ?bmp = (1, 1)"
    by (rule output_size_nonpos_scale)
  with handleUpload_succeeds [OF a photo_bitmap c] photo_bitmap show ?thesis by simp
qed

end
